theory Spec2Isabelle
  imports Complex_Main "HOL-Library.AList"
begin

section \<open>Translation manager core: a shallow embedding\<close>

text \<open>
  The development models the four pure algorithms of the repository: the key sanitizer and
  linter (\<^verbatim>\<open>src/utils/keyOptimizer.ts\<close>), the duplicate detector
  (\<^verbatim>\<open>src/utils/duplicateDetector.ts\<close>), the flattener (\<^verbatim>\<open>flattenNode\<close>,
  \<^verbatim>\<open>flattenJsons\<close>) and the two builders (\<^verbatim>\<open>src/utils/jsonBuilder.ts\<close>).

  Modelling conventions.
  \<^item> A JavaScript string is a \<^typ>\<open>string\<close>: a list of code units, each below 256 (the
    Latin-1 range). Lower-casing, whitespace and the trimming of \<^verbatim>\<open>trim()\<close> are
    modelled for exactly these code units.
  \<^item> A JavaScript object is the list of its own enumerable properties in the order
    \<^verbatim>\<open>Object.entries\<close> lists them; a \<^verbatim>\<open>Map\<close> is the list of its entries in
    insertion order, where \<^const>\<open>AList.update\<close> is \<^verbatim>\<open>Map.set\<close> (replace in place, or
    append).
  \<^item> Every object is an ordinary object whose prototype is \<^verbatim>\<open>Object.prototype\<close>, and
    \<^verbatim>\<open>Object.prototype\<close> is as the language defines it: its own properties are methods
    and the accessor \<^verbatim>\<open>__proto__\<close>. A call of a builder that would change this, or
    that walks into an array, ends the model of the call with the outcome \<open>Unmodelled\<close>.
  \<^item> A thrown \<^verbatim>\<open>TypeError\<close> is the value \<open>Inl TypeError\<close>.
\<close>

subsection \<open>Key sanitizer and linter\<close>

text \<open>The reserved words of \<^verbatim>\<open>FORBIDDEN_KEYWORDS\<close>, in source order.\<close>

definition FORBIDDEN_KEYWORDS :: "string list" where
  "FORBIDDEN_KEYWORDS = [
    ''abstract'', ''assert'', ''boolean'', ''break'', ''byte'', ''case'', ''catch'',
    ''char'', ''class'', ''const'', ''continue'', ''default'', ''do'', ''double'', ''else'',
    ''enum'', ''extends'', ''final'', ''finally'', ''float'', ''for'', ''goto'', ''if'',
    ''implements'', ''import'', ''instanceof'', ''int'', ''interface'', ''long'',
    ''native'', ''new'', ''null'', ''package'', ''private'', ''protected'', ''public'',
    ''return'', ''short'', ''static'', ''strictfp'', ''super'', ''switch'',
    ''synchronized'', ''this'', ''throw'', ''throws'', ''transient'', ''try'', ''void'',
    ''volatile'', ''while'', ''as'', ''fun'', ''in'', ''is'', ''object'', ''typealias'',
    ''typeof'', ''val'', ''var'', ''when'', ''companion'', ''data'', ''sealed'',
    ''internal'', ''open'', ''lateinit'', ''inline'', ''crossinline'', ''noinline'',
    ''reified'', ''suspend'', ''tailrec'', ''vararg'', ''where'', ''it'', ''out'',
    ''dynamic'', ''actual'', ''expect'', ''let'', ''func'', ''self'', ''true'', ''false'',
    ''nil'', ''inout'', ''init'', ''deinit'', ''subscript'', ''convenience'', ''required'',
    ''override'', ''mutating'', ''lazy'', ''weak'', ''unowned'', ''optional'', ''prefix'',
    ''postfix'', ''infix'', ''operator'', ''fileprivate'', ''rethrows'', ''repeat'',
    ''guard'', ''defer'', ''fallthrough'', ''associatedtype'', ''protocol'', ''struct'',
    ''extension'', ''indirect'', ''get'', ''set'', ''willset'', ''didset'', ''any'',
    ''some'', ''auto'', ''register'', ''extern'', ''union'', ''signed'', ''unsigned'',
    ''sizeof'', ''typedef'', ''id'', ''string'', ''layout'', ''color'', ''style'',
    ''drawable'', ''menu'', ''raw'', ''xml'', ''mipmap'', ''name'', ''anim'', ''animator'',
    ''array'', ''attr'', ''bool'', ''dimen'', ''fraction'', ''integer'', ''interpolator'',
    ''plurals'', ''values'', ''font'', ''unit'', ''type'', ''value'', ''key'', ''index'',
    ''item'', ''list'', ''map'', ''result'', ''error'']"

text \<open>
  Character classes of the regular expressions: \<^verbatim>\<open>\s\<close> (tab, line feed, vertical tab,
  form feed, carriage return, space, no-break space), \<^verbatim>\<open>[0-9]\<close>,
  \<^verbatim>\<open>[a-z0-9_]\<close>, \<^verbatim>\<open>[a-z]\<close> and the underscore.
\<close>

definition isWhitespace :: "char \<Rightarrow> bool" where
  "isWhitespace c = (c \<in> set [CHR 0x09, CHR 0x0A, CHR 0x0B, CHR 0x0C, CHR 0x0D, CHR 0x20, CHR 0xA0])"

definition isDigit :: "char \<Rightarrow> bool" where
  "isDigit c = (c \<in> set ''0123456789'')"

definition isKeyChar :: "char \<Rightarrow> bool" where
  "isKeyChar c = (c \<in> set ''abcdefghijklmnopqrstuvwxyz0123456789_'')"

definition isLowerLetter :: "char \<Rightarrow> bool" where
  "isLowerLetter c = (c \<in> set ''abcdefghijklmnopqrstuvwxyz'')"

definition isUnderscore :: "char \<Rightarrow> bool" where
  "isUnderscore c = (c = CHR ''_'')"

text \<open>
  \<^verbatim>\<open>toLowerCase()\<close>: the letters A to Z and the Latin-1 capitals (0xC0 to 0xDE without the
  multiplication sign 0xD7) move to their lower-case code unit; every other code unit stays.
\<close>

definition upperChars :: "char list" where
  "upperChars = ''ABCDEFGHIJKLMNOPQRSTUVWXYZ'' @
     [CHR 0xC0, CHR 0xC1, CHR 0xC2, CHR 0xC3, CHR 0xC4, CHR 0xC5, CHR 0xC6, CHR 0xC7, CHR 0xC8, CHR 0xC9, CHR 0xCA, CHR 0xCB, CHR 0xCC, CHR 0xCD, CHR 0xCE, CHR 0xCF, CHR 0xD0, CHR 0xD1, CHR 0xD2, CHR 0xD3, CHR 0xD4, CHR 0xD5, CHR 0xD6, CHR 0xD8, CHR 0xD9, CHR 0xDA, CHR 0xDB, CHR 0xDC, CHR 0xDD, CHR 0xDE]"

definition lowerChars :: "char list" where
  "lowerChars = ''abcdefghijklmnopqrstuvwxyz'' @
     [CHR 0xE0, CHR 0xE1, CHR 0xE2, CHR 0xE3, CHR 0xE4, CHR 0xE5, CHR 0xE6, CHR 0xE7, CHR 0xE8, CHR 0xE9, CHR 0xEA, CHR 0xEB, CHR 0xEC, CHR 0xED, CHR 0xEE, CHR 0xEF, CHR 0xF0, CHR 0xF1, CHR 0xF2, CHR 0xF3, CHR 0xF4, CHR 0xF5, CHR 0xF6, CHR 0xF8, CHR 0xF9, CHR 0xFA, CHR 0xFB, CHR 0xFC, CHR 0xFD, CHR 0xFE]"

definition lowerChar :: "char \<Rightarrow> char" where
  "lowerChar c = (case map_of (zip upperChars lowerChars) c of Some l \<Rightarrow> l | None \<Rightarrow> c)"

definition toLowerCase :: "string \<Rightarrow> string" where
  "toLowerCase s = map lowerChar s"

text \<open>
  \<^verbatim>\<open>.replace(/\s+/g, '_')\<close> and \<^verbatim>\<open>.replace(/_+/g, '_')\<close>: every maximal run of
  characters of the class becomes one underscore.
\<close>

function replaceRuns :: "(char \<Rightarrow> bool) \<Rightarrow> string \<Rightarrow> string" where
  "replaceRuns p [] = []"
| "replaceRuns p (c # cs) =
     (if p c then CHR ''_'' # replaceRuns p (dropWhile p cs) else c # replaceRuns p cs)"
  by pat_completeness auto
termination
  by (relation "measure (\<lambda>(p, s). length s)") (auto simp: length_dropWhile_le less_Suc_eq_le)

text \<open>\<^verbatim>\<open>.replace(/^_+|_+$/g, '')\<close>: the leading and the trailing underscores go.\<close>

definition trimUnderscores :: "string \<Rightarrow> string" where
  "trimUnderscores s = rev (dropWhile isUnderscore (rev (dropWhile isUnderscore s)))"

text \<open>The five chained string operations that open \<^verbatim>\<open>optimizeKey\<close>.\<close>

definition cleanup :: "string \<Rightarrow> string" where
  "cleanup key =
     trimUnderscores (replaceRuns isUnderscore (filter isKeyChar
       (replaceRuns isWhitespace (toLowerCase key))))"

record Optimized =
  optimized :: string
  wasChanged :: bool

definition optimizeKey :: "string \<Rightarrow> Optimized" where
  "optimizeKey key =
     (let result = cleanup key;
          result = (if result = [] \<or> isDigit (hd result) then ''fix_'' @ result else result);
          result = (if result \<in> set FORBIDDEN_KEYWORDS then ''common_fix_'' @ result else result)
      in \<lparr> optimized = result, wasChanged = (key \<noteq> result) \<rparr>)"

text \<open>The two conditional prefixes of \<^const>\<open>optimizeKey\<close>, named for the proofs.\<close>

definition fixDigit :: "string \<Rightarrow> string" where
  "fixDigit c = (if c = [] \<or> isDigit (hd c) then ''fix_'' @ c else c)"

definition fixReserved :: "string \<Rightarrow> string" where
  "fixReserved r = (if r \<in> set FORBIDDEN_KEYWORDS then ''common_fix_'' @ r else r)"

text \<open>
  \<^verbatim>\<open>split('.')\<close> (never the empty list: the empty string splits into one empty segment)
  and \<^verbatim>\<open>join('.')\<close>.
\<close>

fun splitDot :: "string \<Rightarrow> string list" where
  "splitDot [] = [[]]"
| "splitDot (c # cs) =
     (if c = CHR ''.'' then [] # splitDot cs
      else (case splitDot cs of w # ws \<Rightarrow> (c # w) # ws | [] \<Rightarrow> [[c]]))"

fun joinDot :: "string list \<Rightarrow> string" where
  "joinDot [] = []"
| "joinDot [w] = w"
| "joinDot (w # v # ws) = w @ ''.'' @ joinDot (v # ws)"

record KeyIssue =
  original :: string
  suggested :: string
  keyPath :: string

definition analyzeKeyIssues :: "string \<Rightarrow> KeyIssue option" where
  "analyzeKeyIssues kp =
     (let segments = splitDot kp;
          lastSegment = last segments;
          r = optimizeKey lastSegment
      in if \<not> wasChanged r then None
         else Some \<lparr> original = lastSegment, suggested = optimized r,
                      keyPath = joinDot (butlast segments @ [optimized r]) \<rparr>)"

text \<open>
  The regular expression \<^verbatim>\<open>^[a-z][a-z0-9_]*$\<close> of the specification, and the shape of a
  string that the cleanup leaves unchanged: key characters only, no two underscores in a
  row, no underscore at either end.
\<close>

definition matchesKeyPattern :: "string \<Rightarrow> bool" where
  "matchesKeyPattern r = (case r of [] \<Rightarrow> False | c # cs \<Rightarrow> isLowerLetter c \<and> list_all isKeyChar cs)"

fun noDouble :: "string \<Rightarrow> bool" where
  "noDouble (c # d # cs) = (\<not> (isUnderscore c \<and> isUnderscore d) \<and> noDouble (d # cs))"
| "noDouble cs = True"

definition clean :: "string \<Rightarrow> bool" where
  "clean r = (list_all isKeyChar r \<and> noDouble r \<and>
     (r = [] \<or> (\<not> isUnderscore (hd r) \<and> \<not> isUnderscore (last r))))"

subsection \<open>Rows and the duplicate detector\<close>

text \<open>
  The language codes \<^verbatim>\<open>'az' | 'en' | 'ru'\<close>, and the fields of the interface
  \<^verbatim>\<open>Translation\<close> that the core reads (\<^verbatim>\<open>string | null\<close> is
  \<^typ>\<open>string option\<close>). Its other fields (\<^verbatim>\<open>id\<close>, \<^verbatim>\<open>project_id\<close>,
  \<^verbatim>\<open>original_key\<close> and the two time stamps) are never read by the modelled functions.
\<close>

datatype lang = AZ | EN | RU

record Translation =
  key_path :: string
  az_value :: "string option"
  en_value :: "string option"
  ru_value :: "string option"
  token_type :: "string option"
  figma_variable_id :: "string option"

text \<open>The interface \<^verbatim>\<open>DuplicateGroup\<close>; its field \<^verbatim>\<open>value\<close> is \<open>group_value\<close> here.\<close>

record DuplicateGroup =
  group_value :: string
  language :: lang
  keyPaths :: "string list"

text \<open>The field access \<^verbatim>\<open>t[`${lang}_value`]\<close>.\<close>

fun valueOf :: "lang \<Rightarrow> Translation \<Rightarrow> string option" where
  "valueOf AZ t = az_value t"
| "valueOf EN t = en_value t"
| "valueOf RU t = ru_value t"

text \<open>\<^verbatim>\<open>trim()\<close>, and the test \<^verbatim>\<open>!val || val.trim() === ''\<close> that skips a row.\<close>

definition trim :: "string \<Rightarrow> string" where
  "trim s = rev (dropWhile isWhitespace (rev (dropWhile isWhitespace s)))"

definition isBlank :: "string option \<Rightarrow> bool" where
  "isBlank val = (case val of None \<Rightarrow> True | Some v \<Rightarrow> v = [] \<or> trim v = [])"

text \<open>\<^verbatim>\<open>valueMap.get(val) || []\<close>.\<close>

definition getOrEmpty :: "(string \<times> string list) list \<Rightarrow> string \<Rightarrow> string list" where
  "getOrEmpty valueMap val = (case map_of valueMap val of Some existing \<Rightarrow> existing | None \<Rightarrow> [])"

text \<open>The inner loop over the rows, threading \<^verbatim>\<open>valueMap\<close>.\<close>

fun collectValues ::
  "lang \<Rightarrow> Translation list \<Rightarrow> (string \<times> string list) list \<Rightarrow> (string \<times> string list) list" where
  "collectValues l [] valueMap = valueMap"
| "collectValues l (t # ts) valueMap =
     (if isBlank (valueOf l t) then collectValues l ts valueMap
      else let val = the (valueOf l t);
               existing = getOrEmpty valueMap val @ [key_path t]
           in collectValues l ts (AList.update val existing valueMap))"

text \<open>The loop over the entries of \<^verbatim>\<open>valueMap\<close> that pushes the groups.\<close>

definition emitGroups :: "lang \<Rightarrow> (string \<times> string list) list \<Rightarrow> DuplicateGroup list" where
  "emitGroups l valueMap =
     map (\<lambda>(v, kps). \<lparr> group_value = v, language = l, keyPaths = kps \<rparr>)
       (filter (\<lambda>(v, kps). length kps > 1) valueMap)"

definition findDuplicateValues :: "Translation list \<Rightarrow> DuplicateGroup list" where
  "findDuplicateValues translations =
     concat (map (\<lambda>l. emitGroups l (collectValues l translations [])) [AZ, EN, RU])"

text \<open>
  The detector in the words of the specification, for comparison with the code: per
  language, the values that are not blank in order of first occurrence, each with the key
  paths of the rows that carry it, kept when at least two rows do.
\<close>

fun firstOccurrences :: "'a list \<Rightarrow> 'a list" where
  "firstOccurrences [] = []"
| "firstOccurrences (x # xs) = x # filter (\<lambda>y. y \<noteq> x) (firstOccurrences xs)"

definition countedValues :: "lang \<Rightarrow> Translation list \<Rightarrow> string list" where
  "countedValues l ts = map (\<lambda>t. the (valueOf l t)) (filter (\<lambda>t. \<not> isBlank (valueOf l t)) ts)"

definition pathsWith :: "lang \<Rightarrow> string \<Rightarrow> Translation list \<Rightarrow> string list" where
  "pathsWith l v ts = map key_path (filter (\<lambda>t. valueOf l t = Some v) ts)"

definition specDuplicatesFor :: "lang \<Rightarrow> Translation list \<Rightarrow> DuplicateGroup list" where
  "specDuplicatesFor l ts =
     map (\<lambda>v. \<lparr> group_value = v, language = l, keyPaths = pathsWith l v ts \<rparr>)
       (filter (\<lambda>v. 2 \<le> length (pathsWith l v ts)) (firstOccurrences (countedValues l ts)))"

definition specDuplicates :: "Translation list \<Rightarrow> DuplicateGroup list" where
  "specDuplicates ts = specDuplicatesFor AZ ts @ specDuplicatesFor EN ts @ specDuplicatesFor RU ts"

text \<open>A row with the given key path and values, and neither type nor variable id.\<close>

definition row :: "string \<Rightarrow> string option \<Rightarrow> string option \<Rightarrow> string option \<Rightarrow> Translation" where
  "row kp a e r = \<lparr> key_path = kp, az_value = a, en_value = e, ru_value = r,
      token_type = None, figma_variable_id = None \<rparr>"

subsection \<open>The flattener\<close>

text \<open>
  A parsed JSON value. Of a number only its being zero is ever observed (by a truthiness
  test). An object is the list of its properties in the order of
  \<^verbatim>\<open>Object.entries\<close>.
\<close>

datatype json =
    JNull
  | JBool bool
  | JNum rat
  | JStr string
  | JArr "json list"
  | JObj "(string \<times> json) list"

text \<open>
  Truthiness, the test \<^verbatim>\<open>child && typeof child === 'object'\<close> (an array passes it),
  and the property reads the flattener makes: \<^verbatim>\<open>$value\<close>, \<^verbatim>\<open>$type\<close>,
  \<^verbatim>\<open>$extensions\<close>, \<^verbatim>\<open>com.figma\<close> and \<^verbatim>\<open>variableId\<close>. None of
  these names is an index or \<^verbatim>\<open>length\<close>, so on an array or a primitive the read is
  \<^verbatim>\<open>undefined\<close>, which is \<open>None\<close>.
\<close>

fun truthy :: "json \<Rightarrow> bool" where
  "truthy JNull = False"
| "truthy (JBool b) = b"
| "truthy (JNum n) = (n \<noteq> 0)"
| "truthy (JStr s) = (s \<noteq> [])"
| "truthy (JArr xs) = True"
| "truthy (JObj kvs) = True"

fun isObjectLike :: "json \<Rightarrow> bool" where
  "isObjectLike (JArr xs) = True"
| "isObjectLike (JObj kvs) = True"
| "isObjectLike v = False"

fun getProp :: "json \<Rightarrow> string \<Rightarrow> json option" where
  "getProp (JObj kvs) k = map_of kvs k"
| "getProp v k = None"

text \<open>\<^verbatim>\<open>a || b\<close>.\<close>

definition orElse :: "json option \<Rightarrow> json \<Rightarrow> json" where
  "orElse a b = (case a of Some v \<Rightarrow> if truthy v then v else b | None \<Rightarrow> b)"

text \<open>
  \<^verbatim>\<open>Object.entries\<close>: the properties of an object; the elements of an array under
  their decimal indices; the characters of a string under theirs; nothing for the rest.
\<close>

definition digitChar :: "nat \<Rightarrow> char" where
  "digitChar d = ''0123456789'' ! d"

function showNat :: "nat \<Rightarrow> string" where
  "showNat n = (if n < 10 then [digitChar n] else showNat (n div 10) @ [digitChar (n mod 10)])"
  by pat_completeness auto
termination
  by (relation "measure id") auto

fun indexed :: "nat \<Rightarrow> json list \<Rightarrow> (string \<times> json) list" where
  "indexed i [] = []"
| "indexed i (x # xs) = (showNat i, x) # indexed (Suc i) xs"

fun entries :: "json \<Rightarrow> (string \<times> json) list" where
  "entries (JObj kvs) = kvs"
| "entries (JArr xs) = indexed 0 xs"
| "entries (JStr s) = indexed 0 (map (\<lambda>c. JStr [c]) s)"
| "entries v = []"

text \<open>
  The interfaces \<^verbatim>\<open>FlatRow\<close> and \<^verbatim>\<open>GroupExt\<close>. The fields of a row hold what
  the casts \<^verbatim>\<open>as string\<close> let through: any JSON value, \<^verbatim>\<open>null\<close> being
  \<^const>\<open>JNull\<close>. The two maps of \<^verbatim>\<open>flattenNode\<close> are its state.
\<close>

record FlatRow =
  key_path :: string
  az_value :: json
  en_value :: json
  ru_value :: json
  token_type :: json
  figma_variable_id :: json

record GroupExt =
  group_path :: string
  extensions :: json

record FlattenState =
  rows :: "(string \<times> FlatRow) list"
  groupExtensions :: "(string \<times> GroupExt) list"

text \<open>The assignment \<^verbatim>\<open>existing[`${lang}_value`] = child.$value\<close>.\<close>

fun setLangValue :: "lang \<Rightarrow> json \<Rightarrow> FlatRow \<Rightarrow> FlatRow" where
  "setLangValue AZ v r = r\<lparr> az_value := v \<rparr>"
| "setLangValue EN v r = r\<lparr> en_value := v \<rparr>"
| "setLangValue RU v r = r\<lparr> ru_value := v \<rparr>"

definition newRow :: "string \<Rightarrow> FlatRow" where
  "newRow currentPath = \<lparr> key_path = currentPath, az_value = JNull, en_value = JNull,
     ru_value = JNull, token_type = JNull, figma_variable_id = JNull \<rparr>"

text \<open>\<^verbatim>\<open>ext?.['com.figma']?.variableId\<close>, for an \<open>ext\<close> that is truthy.\<close>

definition variableIdOf :: "json \<Rightarrow> json option" where
  "variableIdOf ext =
     (case getProp ext ''com.figma'' of
        None \<Rightarrow> None
      | Some JNull \<Rightarrow> None
      | Some f \<Rightarrow> getProp f ''variableId'')"

text \<open>
  The leaf branch of \<^verbatim>\<open>flattenNode\<close>: \<open>mergeRow\<close> computes the row
  \<^verbatim>\<open>existing\<close> from what \<^verbatim>\<open>rows.get(currentPath)\<close> found, \<open>mergeLeaf\<close> stores it.
  \<open>v\<close> is \<^verbatim>\<open>child.$value\<close>.
\<close>

definition mergeRow :: "lang \<Rightarrow> string \<Rightarrow> json \<Rightarrow> json \<Rightarrow> FlatRow option \<Rightarrow> FlatRow" where
  "mergeRow l currentPath child v found =
     (let existing = (case found of Some r \<Rightarrow> r | None \<Rightarrow> newRow currentPath);
          existing = setLangValue l v existing;
          existing = existing\<lparr> token_type := orElse (getProp child ''$type'') (token_type existing) \<rparr>;
          existing = (case getProp child ''$extensions'' of
                        None \<Rightarrow> existing
                      | Some ext \<Rightarrow>
                          if truthy ext
                          then existing\<lparr> figma_variable_id :=
                                 orElse (variableIdOf ext) (figma_variable_id existing) \<rparr>
                          else existing)
      in existing)"

definition mergeLeaf :: "lang \<Rightarrow> string \<Rightarrow> json \<Rightarrow> json \<Rightarrow> FlattenState \<Rightarrow> FlattenState" where
  "mergeLeaf l currentPath child v st =
     st\<lparr> rows := AList.update currentPath
       (mergeRow l currentPath child v (map_of (rows st) currentPath)) (rows st) \<rparr>"

text \<open>The group branch, before the recursive call.\<close>

definition recordGroup :: "string \<Rightarrow> json \<Rightarrow> FlattenState \<Rightarrow> FlattenState" where
  "recordGroup currentPath child st =
     (case getProp child ''$extensions'' of
        None \<Rightarrow> st
      | Some ext \<Rightarrow>
          if truthy ext
          then st\<lparr> groupExtensions := AList.update currentPath
                 \<lparr> group_path = currentPath, extensions = ext \<rparr> (groupExtensions st) \<rparr>
          else st)"

text \<open>\<^verbatim>\<open>pathPrefix ? `${pathPrefix}.${key}` : key\<close>.\<close>

definition joinPath :: "string \<Rightarrow> string \<Rightarrow> string" where
  "joinPath pathPrefix k = (if pathPrefix \<noteq> [] then pathPrefix @ ''.'' @ k else k)"

text \<open>The measure under which the recursion of \<^verbatim>\<open>flattenNode\<close> ends.\<close>

fun weight :: "json \<Rightarrow> nat" where
  "weight (JObj kvs) = Suc (sum_list (map (\<lambda>e. Suc (weight (snd e))) kvs))"
| "weight (JArr xs) = Suc (sum_list (map (\<lambda>x. Suc (weight x)) xs))"
| "weight v = 0"

lemma weight_indexed:
  "sum_list (map (\<lambda>e. Suc (weight (snd e))) (indexed i xs)) = sum_list (map (\<lambda>x. Suc (weight x)) xs)"
  by (induction xs arbitrary: i) auto

lemma weight_entries:
  "isObjectLike v \<Longrightarrow> sum_list (map (\<lambda>e. Suc (weight (snd e))) (entries v)) < Suc (weight v + n)"
  by (cases v) (auto simp: weight_indexed)

text \<open>
  \<^verbatim>\<open>flattenNode\<close>: \<open>flattenEntries\<close> is the loop over \<^verbatim>\<open>Object.entries(node)\<close>,
  one equation per iteration.
\<close>

function flattenEntries ::
  "(string \<times> json) list \<Rightarrow> string \<Rightarrow> lang \<Rightarrow> FlattenState \<Rightarrow> FlattenState" where
  "flattenEntries [] pathPrefix l st = st"
| "flattenEntries ((k, v) # rest) pathPrefix l st =
     (if k = ''$extensions'' \<or> \<not> isObjectLike v then flattenEntries rest pathPrefix l st
      else
        let currentPath = joinPath pathPrefix k in
        (case getProp v ''$value'' of
           Some leafValue \<Rightarrow> flattenEntries rest pathPrefix l (mergeLeaf l currentPath v leafValue st)
         | None \<Rightarrow>
             flattenEntries rest pathPrefix l
               (flattenEntries (entries v) currentPath l (recordGroup currentPath v st))))"
  by pat_completeness auto
termination
  by (relation "measure (\<lambda>(es, p, l, st). sum_list (map (\<lambda>e. Suc (weight (snd e))) es))")
     (auto simp: weight_entries)

definition flattenNode :: "json \<Rightarrow> string \<Rightarrow> lang \<Rightarrow> FlattenState \<Rightarrow> FlattenState" where
  "flattenNode node pathPrefix l st = flattenEntries (entries node) pathPrefix l st"

record FlattenResult =
  result_rows :: "FlatRow list"
  result_groupExtensions :: "GroupExt list"

text \<open>\<^verbatim>\<open>if (azJson) flattenNode(azJson, '', 'az', rows, groupExtensions)\<close>.\<close>

definition flattenIf :: "json \<Rightarrow> lang \<Rightarrow> FlattenState \<Rightarrow> FlattenState" where
  "flattenIf tree l st = (if truthy tree then flattenNode tree [] l st else st)"

definition flattenJsons :: "json \<Rightarrow> json \<Rightarrow> json \<Rightarrow> FlattenResult" where
  "flattenJsons azJson enJson ruJson =
     (let st = \<lparr> rows = [], groupExtensions = [] \<rparr>;
          st = flattenIf azJson AZ st;
          st = flattenIf enJson EN st;
          st = flattenIf ruJson RU st
      in \<lparr> result_rows = map snd (rows st), result_groupExtensions = map snd (groupExtensions st) \<rparr>)"

subsection \<open>Leaf occurrences\<close>

text \<open>
  The leaf tokens of a tree in the order \<^const>\<open>flattenEntries\<close> meets them, each with its
  dotted path, its object and its \<^verbatim>\<open>$value\<close>; the occurrences of the three trees in
  processing order; and what the occurrences at one path make of a row.
\<close>

function leafEvents :: "(string \<times> json) list \<Rightarrow> string \<Rightarrow> (string \<times> json \<times> json) list" where
  "leafEvents [] pathPrefix = []"
| "leafEvents ((k, v) # rest) pathPrefix =
     (if k = ''$extensions'' \<or> \<not> isObjectLike v then leafEvents rest pathPrefix
      else
        (case getProp v ''$value'' of
           Some leafValue \<Rightarrow> (joinPath pathPrefix k, v, leafValue) # leafEvents rest pathPrefix
         | None \<Rightarrow> leafEvents (entries v) (joinPath pathPrefix k) @ leafEvents rest pathPrefix))"
  by pat_completeness auto
termination
  by (relation "measure (\<lambda>(es, p). sum_list (map (\<lambda>e. Suc (weight (snd e))) es))")
     (auto simp: weight_entries)

definition treeEvents :: "lang \<Rightarrow> json \<Rightarrow> (lang \<times> string \<times> json \<times> json) list" where
  "treeEvents l tree = (if truthy tree then map (Pair l) (leafEvents (entries tree) []) else [])"

definition occurrences :: "json \<Rightarrow> json \<Rightarrow> json \<Rightarrow> (lang \<times> string \<times> json \<times> json) list" where
  "occurrences azJson enJson ruJson = treeEvents AZ azJson @ treeEvents EN enJson @ treeEvents RU ruJson"

definition applyEvent ::
  "(string \<times> FlatRow) list \<Rightarrow> lang \<times> string \<times> json \<times> json \<Rightarrow> (string \<times> FlatRow) list" where
  "applyEvent rs ev = (case ev of (l, p, child, v) \<Rightarrow> AList.update p (mergeRow l p child v (map_of rs p)) rs)"

definition rowAt ::
  "string \<Rightarrow> FlatRow option \<Rightarrow> (lang \<times> string \<times> json \<times> json) list \<Rightarrow> FlatRow option" where
  "rowAt p start evs =
     foldl (\<lambda>found (l, q, child, v). if q = p then Some (mergeRow l q child v found) else found) start evs"

text \<open>
  The variable id a leaf carries: \<^verbatim>\<open>$extensions['com.figma'].variableId\<close> when it is
  there and truthy; the ids carried by the occurrences at a path, in processing order.
\<close>

definition leafVariableId :: "json \<Rightarrow> json option" where
  "leafVariableId child =
     (case getProp child ''$extensions'' of
        None \<Rightarrow> None
      | Some ext \<Rightarrow>
          if truthy ext
          then (case variableIdOf ext of None \<Rightarrow> None | Some vid \<Rightarrow> if truthy vid then Some vid else None)
          else None)"

definition lastOr :: "'a \<Rightarrow> 'a list \<Rightarrow> 'a" where
  "lastOr d xs = (if xs = [] then d else last xs)"

definition variableIdsAt :: "string \<Rightarrow> (lang \<times> string \<times> json \<times> json) list \<Rightarrow> json list" where
  "variableIdsAt p evs = List.map_filter (\<lambda>(l, q, child, v). if q = p then leafVariableId child else None) evs"

text \<open>No object of the tree has the empty string as a property name.\<close>

fun noEmptyKeys :: "json \<Rightarrow> bool" where
  "noEmptyKeys (JObj kvs) = list_all (\<lambda>e. fst e \<noteq> [] \<and> noEmptyKeys (snd e)) kvs"
| "noEmptyKeys (JArr xs) = list_all noEmptyKeys xs"
| "noEmptyKeys v = True"

definition goodEntries :: "(string \<times> json) list \<Rightarrow> bool" where
  "goodEntries es = list_all (\<lambda>e. fst e \<noteq> [] \<and> noEmptyKeys (snd e)) es"

text \<open>A leaf object with a variable id, for the examples.\<close>

definition figmaLeaf :: "string \<Rightarrow> string \<Rightarrow> json" where
  "figmaLeaf v vid = JObj [(''$value'', JStr v),
      (''$extensions'', JObj [(''com.figma'', JObj [(''variableId'', JStr vid)])])]"

subsection \<open>The builders\<close>

text \<open>
  The builders read the key path, the three values, the type and the variable id of each
  row, whatever these hold: the parameter is declared \<^verbatim>\<open>Translation[]\<close>, and the rows
  of the flattener can be passed as they are. So the loops are modelled on rows whose fields
  are JSON values (\<^typ>\<open>FlatRow\<close>); \<open>asRow\<close> reads a \<^typ>\<open>Translation\<close>, whose fields are
  strings or \<^verbatim>\<open>null\<close>, as such a row. The values are taken as parsed JSON is: no two
  of them share an object, so that a write into one is seen in no other.
\<close>

definition optJson :: "string option \<Rightarrow> json" where
  "optJson v = (case v of None \<Rightarrow> JNull | Some s \<Rightarrow> JStr s)"

definition asRow :: "Translation \<Rightarrow> FlatRow" where
  "asRow t =
     \<lparr> key_path = Translation.key_path t,
       az_value = optJson (Translation.az_value t),
       en_value = optJson (Translation.en_value t),
       ru_value = optJson (Translation.ru_value t),
       token_type = optJson (Translation.token_type t),
       figma_variable_id = optJson (Translation.figma_variable_id t) \<rparr>"

text \<open>The field access \<^verbatim>\<open>t[`${lang}_value`]\<close> on such a row.\<close>

fun langValue :: "lang \<Rightarrow> FlatRow \<Rightarrow> json" where
  "langValue AZ t = az_value t"
| "langValue EN t = en_value t"
| "langValue RU t = ru_value t"

text \<open>
  What a call can end with other than a result: a thrown \<^verbatim>\<open>TypeError\<close>, or a step
  that the model does not follow (\<open>Unmodelled\<close>): a write to a property of
  \<^verbatim>\<open>Object.prototype\<close>, the replacement of the prototype of an object, or a walk into
  an array. After the first two, property lookups behave differently in every object of the
  program; an array that has been written to need not be a JSON array any more.
\<close>

datatype error = TypeError | Unmodelled

text \<open>
  Property order of an ordinary object: array indices (canonical decimal strings below
  \<open>2^32 - 1\<close>) first, ascending, then the other keys in insertion order. \<open>setProp\<close> is the
  assignment \<^verbatim>\<open>obj[k] = v\<close> to an own property, new or old.
\<close>

definition decimalValue :: "string \<Rightarrow> nat" where
  "decimalValue s = foldl (\<lambda>n c. 10 * n + (of_char c - 48)) 0 s"

definition isArrayIndex :: "string \<Rightarrow> bool" where
  "isArrayIndex k = (k \<noteq> [] \<and> list_all isDigit k \<and> (k = ''0'' \<or> hd k \<noteq> CHR ''0'') \<and>
     decimalValue k < 4294967295)"

fun insertIndex :: "string \<Rightarrow> json \<Rightarrow> (string \<times> json) list \<Rightarrow> (string \<times> json) list" where
  "insertIndex k v [] = [(k, v)]"
| "insertIndex k v (p # ps) =
     (if isArrayIndex (fst p) \<and> decimalValue (fst p) < decimalValue k
      then p # insertIndex k v ps else (k, v) # p # ps)"

definition setProp :: "string \<Rightarrow> json \<Rightarrow> (string \<times> json) list \<Rightarrow> (string \<times> json) list" where
  "setProp k v props =
     (if isArrayIndex k \<and> k \<notin> fst ` set props then insertIndex k v props
      else AList.update k v props)"

text \<open>
  \<^verbatim>\<open>setNestedValue\<close>. \<open>walk\<close> is its loop over the segments before the last, followed
  by the final assignment; \<open>current\<close> holds the own properties of the object the loop stands
  on, an ordinary object whose prototype is an untouched \<^verbatim>\<open>Object.prototype\<close>. The
  cases of a segment:
  \<^item> an own property that holds an object: the object is entered as it is;
  \<^item> an own property that holds \<^verbatim>\<open>null\<close>: it is entered too (\<^verbatim>\<open>typeof null\<close> is
    \<^verbatim>\<open>'object'\<close>), and the next \<^verbatim>\<open>in\<close> test or assignment, on \<^verbatim>\<open>null\<close>,
    throws a \<^verbatim>\<open>TypeError\<close>;
  \<^item> an own property that holds an array: the array is entered, which the model does not
    follow;
  \<^item> an own property that holds a string, a number or a boolean, or no own property and a
    name other than \<^verbatim>\<open>__proto__\<close> (there is then no property at all, or an inherited
    method, whose \<^verbatim>\<open>typeof\<close> is \<^verbatim>\<open>'function'\<close>): the segment is assigned a fresh
    object, as an own property;
  \<^item> no own property and the name \<^verbatim>\<open>__proto__\<close>: the \<^verbatim>\<open>in\<close> test finds the
    accessor of \<^verbatim>\<open>Object.prototype\<close>, and the read gives \<^verbatim>\<open>Object.prototype\<close>
    itself, which is entered (\<open>intoPrototype\<close>). There a next segment \<^verbatim>\<open>__proto__\<close>
    reads \<^verbatim>\<open>null\<close>, so that the step after it throws, and a final assignment to
    \<^verbatim>\<open>__proto__\<close> is refused by the setter with a \<^verbatim>\<open>TypeError\<close>; every other
    segment, intermediate or last, writes a property of \<^verbatim>\<open>Object.prototype\<close>.

  The final assignment sets an own property, except for the name \<^verbatim>\<open>__proto__\<close> where
  no own property has it: there the setter replaces the prototype of the object.
\<close>

definition intoPrototype :: "string list \<Rightarrow> string \<Rightarrow> error" where
  "intoPrototype segs lastSeg =
     (if hd (segs @ [lastSeg]) = ''__proto__'' then TypeError else Unmodelled)"

fun walk :: "string list \<Rightarrow> string \<Rightarrow> json \<Rightarrow> (string \<times> json) list \<Rightarrow> error + (string \<times> json) list" where
  "walk [] lastSeg newValue current =
     (if lastSeg = ''__proto__'' \<and> map_of current lastSeg = None then Inl Unmodelled
      else Inr (setProp lastSeg newValue current))"
| "walk (seg # segs) lastSeg newValue current =
     (case map_of current seg of
        Some JNull \<Rightarrow> Inl TypeError
      | Some (JArr xs) \<Rightarrow> Inl Unmodelled
      | Some (JObj child) \<Rightarrow>
          (case walk segs lastSeg newValue child of
             Inl e \<Rightarrow> Inl e
           | Inr child' \<Rightarrow> Inr (setProp seg (JObj child') current))
      | None \<Rightarrow>
          if seg = ''__proto__'' then Inl (intoPrototype segs lastSeg)
          else (case walk segs lastSeg newValue [] of
                  Inl e \<Rightarrow> Inl e
                | Inr child' \<Rightarrow> Inr (setProp seg (JObj child') current))
      | _ \<Rightarrow>
          (case walk segs lastSeg newValue [] of
             Inl e \<Rightarrow> Inl e
           | Inr child' \<Rightarrow> Inr (setProp seg (JObj child') current)))"

definition setNestedValue ::
  "(string \<times> json) list \<Rightarrow> string \<Rightarrow> json \<Rightarrow> error + (string \<times> json) list" where
  "setNestedValue obj path newValue =
     (let segments = splitDot path in walk (butlast segments) (last segments) newValue obj)"

text \<open>
  \<^verbatim>\<open>applyGroupExtensions\<close>: for each group extension the same loop, here over all the
  segments of the group path, and then the assignment
  \<^verbatim>\<open>current.$extensions = ge.extensions\<close>. Of a \<^verbatim>\<open>GroupExtension\<close> the function
  reads the fields of \<^typ>\<open>GroupExt\<close>.
\<close>

fun applyGroupExtensions ::
  "(string \<times> json) list \<Rightarrow> GroupExt list \<Rightarrow> error + (string \<times> json) list" where
  "applyGroupExtensions obj [] = Inr obj"
| "applyGroupExtensions obj (ge # ges) =
     (case walk (splitDot (group_path ge)) ''$extensions'' (extensions ge) obj of
        Inl e \<Rightarrow> Inl e
      | Inr obj' \<Rightarrow> applyGroupExtensions obj' ges)"

text \<open>The object literal \<^verbatim>\<open>{ $value: v, $type: tokenType }\<close>.\<close>

definition leafToken :: "json \<Rightarrow> json \<Rightarrow> json" where
  "leafToken v tokenType = JObj [(''$value'', v), (''$type'', tokenType)]"

text \<open>
  One of the three guarded calls in the loop body of \<^verbatim>\<open>buildDeveloperJson\<close>:
  \<^verbatim>\<open>if (t.xx_value != null) setNestedValue(result[topKey], t.key_path, {...})\<close>.
\<close>

definition placeValue ::
  "string \<Rightarrow> json \<Rightarrow> string \<Rightarrow> json \<Rightarrow> (string \<times> json) list \<Rightarrow> error + (string \<times> json) list" where
  "placeValue topKey val path tokenType result =
     (if val = JNull then Inr result
      else
        (case map_of result topKey of
           Some (JObj sub) \<Rightarrow>
             (case setNestedValue sub path (leafToken val tokenType) of
                Inl e \<Rightarrow> Inl e
              | Inr sub' \<Rightarrow> Inr (AList.update topKey (JObj sub') result))
         | _ \<Rightarrow> Inl TypeError))"

text \<open>\<^verbatim>\<open>t.token_type === 'string' ? 'text' : t.token_type\<close>.\<close>

definition rewriteJsonType :: "json \<Rightarrow> json" where
  "rewriteJsonType ty = (if ty = JStr ''string'' then JStr ''text'' else ty)"

fun buildRows :: "FlatRow list \<Rightarrow> (string \<times> json) list \<Rightarrow> error + (string \<times> json) list" where
  "buildRows [] result = Inr result"
| "buildRows (t # ts) result =
     (let tokenType = rewriteJsonType (token_type t) in
      case placeValue ''Translations/AZ'' (az_value t) (key_path t) tokenType result of
        Inl e \<Rightarrow> Inl e
      | Inr r1 \<Rightarrow>
          (case placeValue ''Translations/EN'' (en_value t) (key_path t) tokenType r1 of
             Inl e \<Rightarrow> Inl e
           | Inr r2 \<Rightarrow>
               (case placeValue ''Translations/RU'' (ru_value t) (key_path t) tokenType r2 of
                  Inl e \<Rightarrow> Inl e
                | Inr r3 \<Rightarrow> buildRows ts r3)))"

definition buildDeveloperJsonRows :: "FlatRow list \<Rightarrow> error + json" where
  "buildDeveloperJsonRows translations =
     (case buildRows translations
             [(''Translations/AZ'', JObj []), (''Translations/EN'', JObj []),
              (''Translations/RU'', JObj [])] of
        Inl e \<Rightarrow> Inl e
      | Inr result \<Rightarrow> Inr (JObj result))"

definition buildDeveloperJson :: "Translation list \<Rightarrow> error + json" where
  "buildDeveloperJson translations = buildDeveloperJsonRows (map asRow translations)"

text \<open>
  \<^verbatim>\<open>buildFigmaJson\<close>. \<open>figmaToken\<close> is the token of a row, with the property
  \<^verbatim>\<open>$extensions\<close> added when \<^verbatim>\<open>t.figma_variable_id\<close> is truthy; \<open>figmaRows\<close> is the
  loop over the rows.
\<close>

definition figmaToken :: "FlatRow \<Rightarrow> json \<Rightarrow> json" where
  "figmaToken t val =
     JObj ([(''$type'', token_type t), (''$value'', val)] @
           (if truthy (figma_variable_id t)
            then [(''$extensions'',
                   JObj [(''com.figma'', JObj [(''variableId'', figma_variable_id t)])])]
            else []))"

fun figmaRows :: "lang \<Rightarrow> FlatRow list \<Rightarrow> (string \<times> json) list \<Rightarrow> error + (string \<times> json) list" where
  "figmaRows l [] result = Inr result"
| "figmaRows l (t # ts) result =
     (let val = langValue l t in
      if val = JNull then figmaRows l ts result
      else (case setNestedValue result (key_path t) (figmaToken t val) of
              Inl e \<Rightarrow> Inl e
            | Inr result' \<Rightarrow> figmaRows l ts result'))"

definition buildFigmaJsonRows :: "FlatRow list \<Rightarrow> GroupExt list \<Rightarrow> lang \<Rightarrow> error + json" where
  "buildFigmaJsonRows translations groupExts l =
     (case figmaRows l translations [] of
        Inl e \<Rightarrow> Inl e
      | Inr result \<Rightarrow>
          (case applyGroupExtensions result groupExts of
             Inl e \<Rightarrow> Inl e
           | Inr result' \<Rightarrow> Inr (JObj result')))"

definition buildFigmaJson :: "Translation list \<Rightarrow> GroupExt list \<Rightarrow> lang \<Rightarrow> error + json" where
  "buildFigmaJson translations groupExts l = buildFigmaJsonRows (map asRow translations) groupExts l"

text \<open>
  Shape predicates for the proofs: a value without arrays in which every \<^verbatim>\<open>null\<close> sits
  under a key \<^verbatim>\<open>$type\<close>; and a result object with exactly the three language keys, in
  order, each holding an object.
\<close>

fun safeTree :: "json \<Rightarrow> bool" where
  "safeTree (JObj ps) =
     list_all (\<lambda>e. (snd e = JNull \<longrightarrow> fst e = ''$type'') \<and> safeTree (snd e)) ps"
| "safeTree (JArr xs) = False"
| "safeTree v = True"

definition topShape :: "(string \<times> json) list \<Rightarrow> bool" where
  "topShape result =
     (\<exists>a e u. result = [(''Translations/AZ'', JObj a), (''Translations/EN'', JObj e),
                          (''Translations/RU'', JObj u)])"

definition subtreesOk :: "(string \<times> json) list \<Rightarrow> bool" where
  "subtreesOk result = (topShape result \<and> list_all (\<lambda>e. safeTree (snd e)) result)"

text \<open>
  A row of strings and \<^verbatim>\<open>null\<close>, such as \<^const>\<open>asRow\<close> gives, whose key path has
  neither \<^verbatim>\<open>$type\<close> among its segments before the last nor \<^verbatim>\<open>__proto__\<close> among
  its segments.
\<close>

definition plainValue :: "json \<Rightarrow> bool" where
  "plainValue v = (case v of JNull \<Rightarrow> True | JStr s \<Rightarrow> True | _ \<Rightarrow> False)"

definition plainPath :: "string \<Rightarrow> bool" where
  "plainPath p = (''$type'' \<notin> set (butlast (splitDot p)) \<and> ''__proto__'' \<notin> set (splitDot p))"

subsection \<open>Flatten, build, flatten again\<close>

text \<open>
  The three language subtrees of the developer JSON (\<^verbatim>\<open>out['Translations/AZ']\<close> and so
  on; a missing property reads \<^verbatim>\<open>undefined\<close>, which \<open>flattenJsons\<close> treats like
  \<^verbatim>\<open>null\<close>), the second flattening, and the whole round: the rows of the first
  flattening go to the builder as they are.
\<close>

definition subtreeOf :: "json \<Rightarrow> string \<Rightarrow> json" where
  "subtreeOf tree k = (case getProp tree k of Some v \<Rightarrow> v | None \<Rightarrow> JNull)"

definition reflatten :: "json \<Rightarrow> FlattenResult" where
  "reflatten tree =
     flattenJsons (subtreeOf tree ''Translations/AZ'') (subtreeOf tree ''Translations/EN'')
       (subtreeOf tree ''Translations/RU'')"

definition roundTrip :: "json \<Rightarrow> json \<Rightarrow> json \<Rightarrow> error + FlattenResult" where
  "roundTrip azJson enJson ruJson =
     (case buildDeveloperJsonRows (result_rows (flattenJsons azJson enJson ruJson)) of
        Inl e \<Rightarrow> Inl e
      | Inr tree \<Rightarrow> Inr (reflatten tree))"

text \<open>
  What the second flattening is compared with: the row with the type rewrite of the merged
  builder applied and without its variable id; and the rows that carry a value at all.
\<close>

definition expectedRow :: "FlatRow \<Rightarrow> FlatRow" where
  "expectedRow r = r\<lparr> token_type := rewriteJsonType (token_type r), figma_variable_id := JNull \<rparr>"

definition hasValue :: "FlatRow \<Rightarrow> bool" where
  "hasValue r = (az_value r \<noteq> JNull \<or> en_value r \<noteq> JNull \<or> ru_value r \<noteq> JNull)"

text \<open>
  The leaf tokens of a list of entries as \<^const>\<open>leafEvents\<close> meets them, each with the list
  of property names that leads to it instead of the dotted path. \<open>pathOf\<close> is the dotted
  path \<^const>\<open>flattenEntries\<close> forms along such a list, starting from the empty prefix.
\<close>

function leafPaths :: "(string \<times> json) list \<Rightarrow> (string list \<times> json) list" where
  "leafPaths [] = []"
| "leafPaths ((k, v) # rest) =
     (if k = ''$extensions'' \<or> \<not> isObjectLike v then leafPaths rest
      else
        (case getProp v ''$value'' of
           Some leafValue \<Rightarrow> ([k], v) # leafPaths rest
         | None \<Rightarrow> map (\<lambda>(segs, lf). (k # segs, lf)) (leafPaths (entries v)) @ leafPaths rest))"
  by pat_completeness auto
termination
  by (relation "measure (\<lambda>es. sum_list (map (\<lambda>e. Suc (weight (snd e))) es))")
     (auto simp: weight_entries)

definition pathOf :: "string list \<Rightarrow> string" where
  "pathOf segs = foldl joinPath [] segs"

definition leafValueOf :: "json \<Rightarrow> json" where
  "leafValueOf lf = (case getProp lf ''$value'' of Some v \<Rightarrow> v | None \<Rightarrow> JNull)"

text \<open>
  The shape of a language subtree under construction: in every object the property names
  are distinct and every property holds an object, which is a leaf token (it has
  \<^verbatim>\<open>$value\<close>) or again of this shape.
\<close>

fun wellFormed :: "json \<Rightarrow> bool" where
  "wellFormed (JObj ps) =
     (distinct (map fst ps) \<and>
      list_all (\<lambda>e. case snd e of
                     JObj qs \<Rightarrow> ''$value'' \<in> fst ` set qs \<or> wellFormed (snd e)
                   | _ \<Rightarrow> False) ps)"
| "wellFormed v = False"

fun isPrefix :: "'a list \<Rightarrow> 'a list \<Rightarrow> bool" where
  "isPrefix [] ys = True"
| "isPrefix (x # xs) [] = False"
| "isPrefix (x # xs) (y # ys) = (x = y \<and> isPrefix xs ys)"

text \<open>
  The row lists on which building and flattening again give the rows back. The key path of
  a row that has a value does not start with a dot; no segment of it is named
  \<^verbatim>\<open>$extensions\<close> or \<^verbatim>\<open>__proto__\<close>, and no segment after the first
  \<^verbatim>\<open>$value\<close>; and of two rows with a value in the same language, the segments of one
  are not a prefix of the segments of the other.
\<close>

definition goodPath :: "string \<Rightarrow> bool" where
  "goodPath p =
     (\<not> (p \<noteq> [] \<and> hd p = CHR ''.'') \<and>
      ''$extensions'' \<notin> set (splitDot p) \<and> ''__proto__'' \<notin> set (splitDot p) \<and>
      ''$value'' \<notin> set (tl (splitDot p)))"

definition clash :: "FlatRow \<Rightarrow> FlatRow \<Rightarrow> bool" where
  "clash t t' =
     (\<exists>l. langValue l t \<noteq> JNull \<and> langValue l t' \<noteq> JNull \<and>
          isPrefix (splitDot (key_path t)) (splitDot (key_path t')))"

definition goodRows :: "FlatRow list \<Rightarrow> bool" where
  "goodRows ts =
     ((\<forall>t \<in> set ts. hasValue t \<longrightarrow> goodPath (key_path t)) \<and>
      (\<forall>t \<in> set ts. \<forall>t' \<in> set ts. key_path t \<noteq> key_path t' \<longrightarrow> \<not> clash t t'))"

text \<open>The values and the types carried by the leaf occurrences at a path.\<close>

definition valuesAt :: "lang \<Rightarrow> string \<Rightarrow> (lang \<times> string \<times> json \<times> json) list \<Rightarrow> json list" where
  "valuesAt l p evs = List.map_filter (\<lambda>(l', q, child, v). if l' = l \<and> q = p then Some v else None) evs"

definition leafType :: "json \<Rightarrow> json option" where
  "leafType child = (case getProp child ''$type'' of None \<Rightarrow> None | Some ty \<Rightarrow> if truthy ty then Some ty else None)"

definition typesAt :: "string \<Rightarrow> (lang \<times> string \<times> json \<times> json) list \<Rightarrow> json list" where
  "typesAt p evs = List.map_filter (\<lambda>(l, q, child, v). if q = p then leafType child else None) evs"

text \<open>The row that the occurrences at a path make, field by field.\<close>

definition rowFrom :: "string \<Rightarrow> (lang \<times> string \<times> json \<times> json) list \<Rightarrow> FlatRow" where
  "rowFrom p evs =
     \<lparr> key_path = p,
       az_value = lastOr JNull (valuesAt AZ p evs),
       en_value = lastOr JNull (valuesAt EN p evs),
       ru_value = lastOr JNull (valuesAt RU p evs),
       token_type = lastOr JNull (typesAt p evs),
       figma_variable_id = lastOr JNull (variableIdsAt p evs) \<rparr>"

text \<open>
  The state of \<^const>\<open>buildRows\<close> between two calls: the three subtrees are well formed, and
  the leaves of each are the given ones. \<open>placed\<close> is the leaf a row puts into the subtree
  of a language.
\<close>

fun langKey :: "lang \<Rightarrow> string" where
  "langKey AZ = ''Translations/AZ''"
| "langKey EN = ''Translations/EN''"
| "langKey RU = ''Translations/RU''"

definition placed :: "lang \<Rightarrow> FlatRow \<Rightarrow> (string list \<times> json) set" where
  "placed l t =
     (if langValue l t = JNull then {}
      else {(splitDot (key_path t), leafToken (langValue l t) (rewriteJsonType (token_type t)))})"

definition placedAll :: "lang \<Rightarrow> FlatRow list \<Rightarrow> (string list \<times> json) set" where
  "placedAll l ts = (\<Union>t \<in> set ts. placed l t)"

definition built :: "(string \<times> json) list \<Rightarrow> (lang \<Rightarrow> (string list \<times> json) set) \<Rightarrow> bool" where
  "built result S =
     (topShape result \<and>
      (\<forall>l. \<exists>sub. map_of result (langKey l) = Some (JObj sub) \<and> wellFormed (JObj sub) \<and>
                 set (leafPaths sub) = S l))"

section \<open>Splitting and joining key paths\<close>

lemma splitDot_nonempty: "splitDot s \<noteq> []"
  by (induction s) (auto split: list.splits)

lemma joinDot_Cons: "ws \<noteq> [] \<Longrightarrow> joinDot (w # ws) = w @ ''.'' @ joinDot ws"
  by (cases ws) auto

lemma joinDot_splitDot: "joinDot (splitDot s) = s"
proof (induction s)
  case Nil
  show ?case by simp
next
  case (Cons c cs)
  show ?case
  proof (cases "c = CHR ''.''")
    case True
    with Cons show ?thesis by (simp add: joinDot_Cons splitDot_nonempty)
  next
    case False
    obtain w ws where s: "splitDot cs = w # ws" using splitDot_nonempty [of cs] by (cases "splitDot cs") auto
    with Cons False show ?thesis by (cases ws) auto
  qed
qed

lemma splitDot_dot_free: "w \<in> set (splitDot s) \<Longrightarrow> CHR ''.'' \<notin> set w"
proof (induction s arbitrary: w)
  case Nil
  then show ?case by simp
next
  case (Cons c cs)
  obtain v vs where s: "splitDot cs = v # vs" using splitDot_nonempty [of cs] by (cases "splitDot cs") auto
  with Cons show ?case by (auto split: if_splits)
qed

lemma splitDot_no_dot: "CHR ''.'' \<notin> set w \<Longrightarrow> splitDot w = [w]"
  by (induction w) auto

lemma splitDot_append:
  "CHR ''.'' \<notin> set w \<Longrightarrow> splitDot (w @ ''.'' @ s) = w # splitDot s"
  by (induction w) auto

lemma splitDot_joinDot:
  "ws \<noteq> [] \<Longrightarrow> (\<And>w. w \<in> set ws \<Longrightarrow> CHR ''.'' \<notin> set w) \<Longrightarrow> splitDot (joinDot ws) = ws"
proof (induction ws rule: joinDot.induct)
  case 1
  then show ?case by simp
next
  case (2 w)
  then show ?case by (simp add: splitDot_no_dot)
next
  case (3 w v ws)
  then show ?case by (simp add: splitDot_append del: append.simps)
qed

section \<open>The key sanitizer and the linter\<close>

lemma replaceRuns_keeps:
  "list_all (\<lambda>c. \<not> p c) s \<Longrightarrow> replaceRuns p s = s"
  by (induction s) auto

lemma replaceRuns_Nil_iff: "(replaceRuns p s = []) = (s = [])"
  by (cases s) auto

lemma hd_replaceRuns_underscore:
  "s \<noteq> [] \<Longrightarrow> isUnderscore (hd (replaceRuns isUnderscore s)) = isUnderscore (hd s)"
  by (cases s) (auto simp: isUnderscore_def)

lemma noDouble_Cons:
  "noDouble (c # cs) = ((cs = [] \<or> \<not> (isUnderscore c \<and> isUnderscore (hd cs))) \<and> noDouble cs)"
  by (cases cs) auto

lemma hd_dropWhile_not: "dropWhile p s \<noteq> [] \<Longrightarrow> \<not> p (hd (dropWhile p s))"
  by (simp add: hd_dropWhile)

lemma noDouble_replaceRuns: "noDouble (replaceRuns isUnderscore s)"
proof (induction isUnderscore s rule: replaceRuns.induct)
  case 1
  show ?case by simp
next
  case (2 c cs)
  show ?case
  proof (cases "isUnderscore c")
    case True
    let ?d = "dropWhile isUnderscore cs"
    have "?d = [] \<or> \<not> isUnderscore (hd (replaceRuns isUnderscore ?d))"
      using hd_replaceRuns_underscore [of ?d] hd_dropWhile_not [of isUnderscore cs] by auto
    with True 2 show ?thesis
      by (auto simp: noDouble_Cons replaceRuns_Nil_iff)
  next
    case False
    with 2 show ?thesis by (auto simp: noDouble_Cons)
  qed
qed

lemma replaceRuns_noDouble_id: "noDouble s \<Longrightarrow> replaceRuns isUnderscore s = s"
proof (induction s)
  case Nil
  show ?case by simp
next
  case (Cons c cs)
  then have nd: "noDouble cs" and edge: "cs = [] \<or> \<not> (isUnderscore c \<and> isUnderscore (hd cs))"
    by (auto simp: noDouble_Cons)
  show ?case
  proof (cases "isUnderscore c")
    case True
    with edge have "dropWhile isUnderscore cs = cs" by (cases cs) auto
    moreover from True have "c = CHR ''_''" by (simp add: isUnderscore_def)
    ultimately show ?thesis using True Cons.IH nd by simp
  next
    case False
    with Cons.IH nd show ?thesis by simp
  qed
qed

lemma underscore_key: "isKeyChar CHR ''_''"
  by (simp add: isKeyChar_def)

lemma replaceRuns_key:
  "list_all isKeyChar s \<Longrightarrow> list_all isKeyChar (replaceRuns p s)"
proof (induction p s rule: replaceRuns.induct)
  case (1 p)
  show ?case by simp
next
  case (2 p c cs)
  have "list_all isKeyChar (dropWhile p cs)"
    using 2(3) set_dropWhileD [of _ p cs] by (auto simp: list_all_iff)
  with 2 show ?case by (auto simp: underscore_key)
qed

lemma noDouble_append:
  "noDouble (a @ b) = (noDouble a \<and> noDouble b \<and>
      (a = [] \<or> b = [] \<or> \<not> (isUnderscore (last a) \<and> isUnderscore (hd b))))"
proof (induction a)
  case Nil
  show ?case by simp
next
  case (Cons c a)
  show ?case
  proof (cases a)
    case Nil
    then show ?thesis by (auto simp: noDouble_Cons)
  next
    case (Cons d a')
    with Cons.IH show ?thesis by (auto simp: noDouble_Cons)
  qed
qed


lemma upper_not_key: "list_all (\<lambda>c. \<not> isKeyChar c) upperChars"
  by (simp add: upperChars_def isKeyChar_def)
lemma length_tables: "length upperChars = length lowerChars"
  by (simp add: upperChars_def lowerChars_def)
lemma lower_key: "isKeyChar c \<Longrightarrow> lowerChar c = c"
proof -
  assume k: "isKeyChar c"
  have "c \<notin> set upperChars" using upper_not_key k by (auto simp: list_all_iff)
  then have "map_of (zip upperChars lowerChars) c = None"
    by (auto simp: map_of_eq_None_iff dest: set_zip_leftD)
  then show ?thesis by (simp add: lowerChar_def)
qed

lemma key_not_whitespace: "list_all (\<lambda>c. \<not> isKeyChar c)
    [CHR 0x09, CHR 0x0A, CHR 0x0B, CHR 0x0C, CHR 0x0D, CHR 0x20, CHR 0xA0]"
  by (simp add: isKeyChar_def)

lemma key_no_ws: "isKeyChar c \<Longrightarrow> \<not> isWhitespace c"
  using key_not_whitespace by (auto simp: isWhitespace_def list_all_iff)

lemma trim_prefix: "\<exists>suf. y = rev (dropWhile p (rev y)) @ suf"
proof -
  have "rev y = takeWhile p (rev y) @ dropWhile p (rev y)" by simp
  then have "y = rev (takeWhile p (rev y) @ dropWhile p (rev y))" by (metis rev_rev_ident)
  then show ?thesis by (metis rev_append)
qed

lemma trim_key: "list_all isKeyChar s \<Longrightarrow> list_all isKeyChar (trimUnderscores s)"
  by (auto simp: trimUnderscores_def list_all_iff dest!: set_dropWhileD)

lemma noDouble_dropWhile: "noDouble s \<Longrightarrow> noDouble (dropWhile p s)"
proof -
  assume "noDouble s"
  then have "noDouble (takeWhile p s @ dropWhile p s)" by simp
  then show ?thesis unfolding noDouble_append by blast
qed

lemma trim_noDouble: "noDouble s \<Longrightarrow> noDouble (trimUnderscores s)"
proof -
  assume "noDouble s"
  then have nd: "noDouble (dropWhile isUnderscore s)" by (rule noDouble_dropWhile)
  obtain suf where "dropWhile isUnderscore s = trimUnderscores s @ suf"
    using trim_prefix [of "dropWhile isUnderscore s" isUnderscore] by (auto simp: trimUnderscores_def)
  with nd show ?thesis by (simp add: noDouble_append)
qed

lemma trim_edges:
  assumes "trimUnderscores s \<noteq> []"
  shows "\<not> isUnderscore (hd (trimUnderscores s))" and "\<not> isUnderscore (last (trimUnderscores s))"
proof -
  let ?y = "dropWhile isUnderscore s"
  let ?t = "trimUnderscores s"
  have t: "?t = rev (dropWhile isUnderscore (rev ?y))" by (simp add: trimUnderscores_def)
  obtain suf where y: "?y = ?t @ suf"
    using trim_prefix [of ?y isUnderscore] by (auto simp: trimUnderscores_def)
  with assms have "?y \<noteq> []" and "hd ?y = hd ?t" by auto
  then show "\<not> isUnderscore (hd ?t)" using hd_dropWhile [of isUnderscore s] by auto
  from assms t have ne: "dropWhile isUnderscore (rev ?y) \<noteq> []" by auto
  then have "\<not> isUnderscore (hd (dropWhile isUnderscore (rev ?y)))" by (rule hd_dropWhile)
  moreover have "last ?t = hd (dropWhile isUnderscore (rev ?y))"
    using ne t by (simp add: last_rev)
  ultimately show "\<not> isUnderscore (last ?t)" by simp
qed

lemma trim_id:
  assumes "s = [] \<or> (\<not> isUnderscore (hd s) \<and> \<not> isUnderscore (last s))"
  shows "trimUnderscores s = s"
proof (cases "s = []")
  case True
  then show ?thesis by (simp add: trimUnderscores_def)
next
  case False
  with assms have h: "\<not> isUnderscore (hd s)" and l: "\<not> isUnderscore (last s)" by auto
  from False h have "dropWhile isUnderscore s = s" by (cases s) auto
  moreover from False l have "dropWhile isUnderscore (rev s) = rev s"
    by (cases "rev s") (auto simp: last_rev [symmetric] hd_rev)
  ultimately show ?thesis by (simp add: trimUnderscores_def)
qed

lemma cleanup_clean: "clean (cleanup s)"
proof -
  let ?f = "filter isKeyChar (replaceRuns isWhitespace (toLowerCase s))"
  have "list_all isKeyChar ?f" by (simp add: list_all_iff)
  then have k: "list_all isKeyChar (replaceRuns isUnderscore ?f)" by (rule replaceRuns_key)
  have n: "noDouble (replaceRuns isUnderscore ?f)" by (rule noDouble_replaceRuns)
  show ?thesis
    unfolding clean_def cleanup_def
    using trim_key [OF k] trim_noDouble [OF n] trim_edges [of "replaceRuns isUnderscore ?f"]
    by blast
qed

lemma cleanup_id: "clean r \<Longrightarrow> cleanup r = r"
proof -
  assume c: "clean r"
  then have k: "list_all isKeyChar r" by (simp add: clean_def)
  have 1: "toLowerCase r = r"
    using k by (simp add: toLowerCase_def list_all_iff lower_key map_idI)
  have 2: "replaceRuns isWhitespace r = r"
    using k by (intro replaceRuns_keeps) (auto simp: list_all_iff key_no_ws)
  have 3: "filter isKeyChar r = r" using k by (simp add: list_all_iff)
  have 4: "replaceRuns isUnderscore r = r" using c by (simp add: clean_def replaceRuns_noDouble_id)
  have 5: "trimUnderscores r = r" using c by (intro trim_id) (auto simp: clean_def)
  show ?thesis by (simp add: cleanup_def 1 2 3 4 5)
qed

lemma forbidden_no_underscore: "list_all (\<lambda>w. CHR ''_'' \<notin> set w) FORBIDDEN_KEYWORDS"
  by (simp add: FORBIDDEN_KEYWORDS_def)

lemma underscore_not_forbidden: "CHR ''_'' \<in> set r \<Longrightarrow> r \<notin> set FORBIDDEN_KEYWORDS"
  using forbidden_no_underscore by (auto simp: list_all_iff)

lemma key_char_kinds: "isKeyChar c = (isLowerLetter c \<or> isDigit c \<or> isUnderscore c)"
  by (simp add: isKeyChar_def isLowerLetter_def isDigit_def isUnderscore_def disj_ac)

lemma lower_not_digit: "isLowerLetter c \<Longrightarrow> \<not> isDigit c"
  by (auto simp: isLowerLetter_def isDigit_def)

lemma digit_not_underscore: "isDigit c \<Longrightarrow> \<not> isUnderscore c"
  by (auto simp: isUnderscore_def isDigit_def)

lemma key_prefixes:
  "list_all isKeyChar ''fix_''" "list_all isKeyChar ''common_fix_''"
  "isLowerLetter CHR ''f''" "isLowerLetter CHR ''c''"
  by (simp_all add: isKeyChar_def isLowerLetter_def)

lemma matches_key: "matchesKeyPattern r \<Longrightarrow> list_all isKeyChar r"
  by (cases r) (auto simp: matchesKeyPattern_def key_char_kinds)

lemma optimized_eq: "optimized (optimizeKey s) = fixReserved (fixDigit (cleanup s))"
  by (simp add: optimizeKey_def fixDigit_def fixReserved_def Let_def)

lemma fixDigit_matches: "clean c \<Longrightarrow> matchesKeyPattern (fixDigit c)"
proof (cases "c = [] \<or> isDigit (hd c)")
  case True
  assume "clean c"
  then have "list_all isKeyChar c" by (simp add: clean_def)
  with True key_prefixes show ?thesis by (simp add: fixDigit_def matchesKeyPattern_def)
next
  case False
  assume c: "clean c"
  from False obtain x xs where cx: "c = x # xs" by (cases c) auto
  with c False have "isKeyChar x" "\<not> isDigit x" "\<not> isUnderscore x" "list_all isKeyChar xs"
    by (auto simp: clean_def)
  then show ?thesis using False cx by (simp add: fixDigit_def matchesKeyPattern_def key_char_kinds)
qed

lemma fixReserved_matches: "matchesKeyPattern r \<Longrightarrow> matchesKeyPattern (fixReserved r)"
  using key_prefixes matches_key [of r] by (simp add: fixReserved_def matchesKeyPattern_def)

text \<open>
  Claim C6. For every string \<open>s\<close>, the sanitized key matches
  \<^verbatim>\<open>^[a-z][a-z0-9_]*$\<close>; it is the literal \<^verbatim>\<open>fix_\<close> (which matches too) exactly
  when the input reduces to the empty string after cleanup.
\<close>

theorem optimizeKey_shape:
  "matchesKeyPattern (optimized (optimizeKey s)) \<and>
   ((optimized (optimizeKey s) = ''fix_'') = (cleanup s = []))"
proof
  show "matchesKeyPattern (optimized (optimizeKey s))"
    unfolding optimized_eq by (intro fixReserved_matches fixDigit_matches cleanup_clean)
  show "(optimized (optimizeKey s) = ''fix_'') = (cleanup s = [])"
  proof (cases "cleanup s = []")
    case True
    then show ?thesis
      by (simp add: optimized_eq fixDigit_def fixReserved_def underscore_not_forbidden)
  next
    case False
    have cl: "clean (cleanup s)" by (rule cleanup_clean)
    with False have l: "\<not> isUnderscore (last (cleanup s))" by (simp add: clean_def)
    have "last (fixDigit (cleanup s)) = last (cleanup s)" using False by (simp add: fixDigit_def)
    moreover have "fixDigit (cleanup s) \<noteq> []" using False by (simp add: fixDigit_def)
    ultimately have "last (fixReserved (fixDigit (cleanup s))) = last (cleanup s)"
      by (simp add: fixReserved_def)
    with l have "fixReserved (fixDigit (cleanup s)) \<noteq> ''fix_''"
      by (auto simp: isUnderscore_def)
    with False show ?thesis by (simp add: optimized_eq)
  qed
qed

lemma optimizeKey_fixpoint:
  assumes "clean r" "r \<noteq> []" "\<not> isDigit (hd r)" "r \<notin> set FORBIDDEN_KEYWORDS"
  shows "optimized (optimizeKey r) = r"
  using assms by (simp add: optimized_eq cleanup_id fixDigit_def fixReserved_def)

lemma clean_prefixed:
  assumes c: "clean c" and ne: "c \<noteq> []" and h: "\<not> isUnderscore (hd c)"
    and p: "list_all isKeyChar p" "noDouble p" "p \<noteq> []" "\<not> isUnderscore (hd p)"
  shows "clean (p @ c)"
  using assms by (auto simp: clean_def noDouble_append)

lemma prefix_facts:
  "noDouble ''fix_''" "noDouble ''common_fix_''"
  "\<not> isUnderscore (hd ''fix_'')" "\<not> isUnderscore (hd ''common_fix_'')"
  "\<not> isDigit (hd ''fix_'')" "\<not> isDigit (hd ''common_fix_'')"
  by (simp_all add: isUnderscore_def isDigit_def)

lemma second_pass_empty: "optimized (optimizeKey ''fix_'') = ''fix''"
  by (simp add: optimizeKey_def cleanup_def trimUnderscores_def toLowerCase_def lowerChar_def
      upperChars_def lowerChars_def isWhitespace_def isKeyChar_def isUnderscore_def isDigit_def
      FORBIDDEN_KEYWORDS_def)

text \<open>
  Claim C2, as amended. For every string \<open>s\<close> whose cleanup is not empty, sanitizing the
  sanitized key again returns it unchanged. For a string whose cleanup is empty the first
  pass yields \<^verbatim>\<open>fix_\<close> and the second pass yields \<^verbatim>\<open>fix\<close>.
\<close>

theorem optimizeKey_second_pass:
  "optimized (optimizeKey (optimized (optimizeKey s))) =
     (if cleanup s = [] then ''fix'' else optimized (optimizeKey s))"
proof (cases "cleanup s = []")
  case True
  then have "optimized (optimizeKey s) = ''fix_''"
    by (simp add: optimized_eq fixDigit_def fixReserved_def underscore_not_forbidden)
  with True show ?thesis by (simp add: second_pass_empty)
next
  case False
  let ?c = "cleanup s"
  have cl: "clean ?c" by (rule cleanup_clean)
  with False have hu: "\<not> isUnderscore (hd ?c)" by (simp add: clean_def)
  have "optimized (optimizeKey (fixReserved (fixDigit ?c))) = fixReserved (fixDigit ?c)"
  proof (cases "isDigit (hd ?c)")
    case True
    have "clean (''fix_'' @ ?c)"
      using cl False hu key_prefixes prefix_facts by (intro clean_prefixed) simp_all
    moreover have "''fix_'' @ ?c \<notin> set FORBIDDEN_KEYWORDS"
      by (rule underscore_not_forbidden) simp
    ultimately have "optimized (optimizeKey (''fix_'' @ ?c)) = ''fix_'' @ ?c"
      using prefix_facts by (intro optimizeKey_fixpoint) simp_all
    moreover have "fixReserved (fixDigit ?c) = ''fix_'' @ ?c"
      using True \<open>''fix_'' @ ?c \<notin> set FORBIDDEN_KEYWORDS\<close>
      by (simp add: fixDigit_def fixReserved_def)
    ultimately show ?thesis by simp
  next
    case nd: False
    with False have fd: "fixDigit ?c = ?c" by (simp add: fixDigit_def)
    show ?thesis
    proof (cases "?c \<in> set FORBIDDEN_KEYWORDS")
      case True
      have "clean (''common_fix_'' @ ?c)"
        using cl False hu key_prefixes prefix_facts by (intro clean_prefixed) simp_all
      moreover have "''common_fix_'' @ ?c \<notin> set FORBIDDEN_KEYWORDS"
        by (rule underscore_not_forbidden) simp
      ultimately have "optimized (optimizeKey (''common_fix_'' @ ?c)) = ''common_fix_'' @ ?c"
        using prefix_facts by (intro optimizeKey_fixpoint) simp_all
      with True fd show ?thesis by (simp add: fixReserved_def)
    next
      case nf: False
      with cl False nd have "optimized (optimizeKey ?c) = ?c" by (intro optimizeKey_fixpoint)
      with nf fd show ?thesis by (simp add: fixReserved_def)
    qed
  qed
  with False show ?thesis by (simp add: optimized_eq)
qed

text \<open>
  Claim C2 as stated fails at the empty string: the first pass gives \<^verbatim>\<open>fix_\<close>, whose
  trailing underscore the second pass trims.
\<close>

theorem optimizeKey_not_idempotent:
  "optimized (optimizeKey (optimized (optimizeKey ''''))) \<noteq> optimized (optimizeKey '''')"
  by (simp add: optimizeKey_def cleanup_def trimUnderscores_def toLowerCase_def lowerChar_def
      upperChars_def lowerChars_def isWhitespace_def isKeyChar_def isUnderscore_def isDigit_def
      FORBIDDEN_KEYWORDS_def)

lemma dot_not_key: "\<not> isKeyChar CHR ''.''"
  by (simp add: isKeyChar_def)

lemma optimized_dot_free: "CHR ''.'' \<notin> set (optimized (optimizeKey s))"
  using matches_key [of "optimized (optimizeKey s)"] optimizeKey_shape [of s] dot_not_key
  by (auto simp: list_all_iff)

lemmas sanitizer_eval = optimizeKey_def cleanup_def trimUnderscores_def toLowerCase_def
  lowerChar_def upperChars_def lowerChars_def isWhitespace_def isKeyChar_def isUnderscore_def
  isDigit_def FORBIDDEN_KEYWORDS_def

lemma optimizeKey_type:
  "optimizeKey ''type'' = \<lparr> optimized = ''common_fix_type'', wasChanged = True \<rparr>"
  by (simp add: sanitizer_eval)

lemma analyze_example:
  "analyzeKeyIssues ''group.type'' =
     Some \<lparr> original = ''type'', suggested = ''common_fix_type'', keyPath = ''group.common_fix_type'' \<rparr>"
proof -
  have "splitDot ''group.type'' = [''group'', ''type'']" by simp
  then show ?thesis by (simp add: analyzeKeyIssues_def Let_def optimizeKey_type)
qed

text \<open>
  Claim C7. For every key path, the segments of \<open>splitDot\<close> rejoin to the path;
  \<open>analyzeKeyIssues\<close> returns no issue exactly when sanitizing the last segment leaves it
  unchanged; otherwise the issue names the last segment, its sanitized form, and a key
  path whose segments are the ancestor segments, verbatim, followed by the sanitized
  segment. For \<^verbatim>\<open>group.type\<close> the suggestion is \<^verbatim>\<open>common_fix_type\<close> and the key
  path \<^verbatim>\<open>group.common_fix_type\<close>.
\<close>

theorem analyzeKeyIssues_last_segment:
  "joinDot (splitDot kp) = kp \<and>
   ((analyzeKeyIssues kp = None) = (optimized (optimizeKey (last (splitDot kp))) = last (splitDot kp))) \<and>
   (\<forall>i. analyzeKeyIssues kp = Some i \<longrightarrow>
      original i = last (splitDot kp) \<and>
      suggested i = optimized (optimizeKey (last (splitDot kp))) \<and>
      suggested i \<noteq> original i \<and>
      keyPath i = joinDot (butlast (splitDot kp) @ [suggested i]) \<and>
      splitDot (keyPath i) = butlast (splitDot kp) @ [suggested i]) \<and>
   analyzeKeyIssues ''group.type'' =
     Some \<lparr> original = ''type'', suggested = ''common_fix_type'', keyPath = ''group.common_fix_type'' \<rparr>"
proof (intro conjI allI impI)
  show "joinDot (splitDot kp) = kp" by (rule joinDot_splitDot)
  show "(analyzeKeyIssues kp = None) = (optimized (optimizeKey (last (splitDot kp))) = last (splitDot kp))"
    by (auto simp: analyzeKeyIssues_def optimizeKey_def Let_def)
  show "analyzeKeyIssues ''group.type'' =
     Some \<lparr> original = ''type'', suggested = ''common_fix_type'', keyPath = ''group.common_fix_type'' \<rparr>"
    by (rule analyze_example)
next
  fix i assume a: "analyzeKeyIssues kp = Some i"
  let ?l = "last (splitDot kp)"
  let ?o = "optimized (optimizeKey ?l)"
  from a have i: "i = \<lparr> original = ?l, suggested = ?o, keyPath = joinDot (butlast (splitDot kp) @ [?o]) \<rparr>"
    and ch: "wasChanged (optimizeKey ?l)"
    by (auto simp: analyzeKeyIssues_def Let_def split: if_splits)
  show "original i = ?l" "suggested i = ?o" using i by simp_all
  show "suggested i \<noteq> original i" using i ch by (auto simp: optimizeKey_def Let_def)
  show "keyPath i = joinDot (butlast (splitDot kp) @ [suggested i])" using i by simp
  have "splitDot (joinDot (butlast (splitDot kp) @ [?o])) = butlast (splitDot kp) @ [?o]"
  proof (rule splitDot_joinDot)
    show "butlast (splitDot kp) @ [?o] \<noteq> []" by simp
    fix w assume "w \<in> set (butlast (splitDot kp) @ [?o])"
    then show "CHR ''.'' \<notin> set w"
      using splitDot_dot_free [of w kp] optimized_dot_free [of ?l] in_set_butlastD [of w "splitDot kp"]
      by auto
  qed
  then show "splitDot (keyPath i) = butlast (splitDot kp) @ [suggested i]" using i by simp
qed

theorem analyzeKeyIssues_last_segment_witness:
  "analyzeKeyIssues ''a b.Type'' = Some \<lparr> original = ''Type'', suggested = ''common_fix_type'',
       keyPath = ''a b.common_fix_type'' \<rparr> \<and>
   splitDot ''a b.common_fix_type'' = [''a b'', ''common_fix_type''] \<and>
   analyzeKeyIssues ''a.b.brand_primary'' = None"
proof -
  have ev: "optimizeKey ''Type'' = \<lparr> optimized = ''common_fix_type'', wasChanged = True \<rparr>"
     "optimizeKey ''brand_primary'' = \<lparr> optimized = ''brand_primary'', wasChanged = False \<rparr>"
    by (simp_all add: sanitizer_eval)
  have sp: "splitDot ''a b.Type'' = [''a b'', ''Type'']"
    "splitDot ''a.b.brand_primary'' = [''a'', ''b'', ''brand_primary'']" by simp_all
  have a: "analyzeKeyIssues ''a b.Type'' = Some \<lparr> original = ''Type'', suggested = ''common_fix_type'',
       keyPath = ''a b.common_fix_type'' \<rparr>"
    by (simp add: analyzeKeyIssues_def Let_def ev sp)
  have "splitDot (keyPath \<lparr> original = ''Type'', suggested = ''common_fix_type'',
       keyPath = ''a b.common_fix_type'' \<rparr>) = butlast (splitDot ''a b.Type'') @ [suggested \<lparr> original = ''Type'', suggested = ''common_fix_type'',
       keyPath = ''a b.common_fix_type'' \<rparr>]"
    using analyzeKeyIssues_last_segment [of "''a b.Type''"] a by blast
  moreover have "analyzeKeyIssues ''a.b.brand_primary'' = None"
    using analyzeKeyIssues_last_segment [of "''a.b.brand_primary''"] by (simp add: ev sp)
  ultimately show ?thesis using a by simp
qed

section \<open>The duplicate detector\<close>

lemma alist_rebuild:
  "distinct (map fst m) \<Longrightarrow> m = map (\<lambda>k. (k, the (map_of m k))) (map fst m)"
proof (induction m)
  case Nil
  show ?case by simp
next
  case (Cons p m)
  then have "map (\<lambda>k. (k, the (map_of (p # m) k))) (map fst m) = map (\<lambda>k. (k, the (map_of m k))) (map fst m)"
    by (intro map_cong) (auto simp: rev_image_eqI)
  with Cons show ?case by (cases p) simp
qed

lemma set_firstOccurrences: "set (firstOccurrences xs) = set xs"
  by (induction xs) auto

lemma keys_update: "fst ` set (AList.update k v m) = insert k (fst ` set m)"
  by (induction m) auto

lemma collect_distinct:
  "distinct (map fst m) \<Longrightarrow> distinct (map fst (collectValues l ts m))"
  by (induction ts arbitrary: m) (auto simp: Let_def distinct_update)

lemma collect_keys:
  "map fst (collectValues l ts m) =
     map fst m @ filter (\<lambda>v. v \<notin> fst ` set m) (firstOccurrences (countedValues l ts))"
proof (induction ts arbitrary: m)
  case Nil
  show ?case by (simp add: countedValues_def)
next
  case (Cons t ts)
  show ?case
  proof (cases "isBlank (valueOf l t)")
    case True
    with Cons show ?thesis by (simp add: countedValues_def)
  next
    case False
    let ?v = "the (valueOf l t)"
    let ?m = "AList.update ?v (getOrEmpty m ?v @ [Translation.key_path t]) m"
    have cv: "countedValues l (t # ts) = ?v # countedValues l ts"
      using False by (simp add: countedValues_def)
    have keys: "fst ` set ?m = insert ?v (fst ` set m)"
      by (rule keys_update)
    have "map fst (collectValues l (t # ts) m) =
        map fst ?m @ filter (\<lambda>v. v \<notin> fst ` set ?m) (firstOccurrences (countedValues l ts))"
      using False by (simp add: Let_def Cons.IH [of ?m])
    also have "\<dots> = map fst m @ filter (\<lambda>v. v \<notin> fst ` set m) (firstOccurrences (countedValues l (t # ts)))"
    proof (cases "?v \<in> fst ` set m")
      case True
      then have k: "map fst ?m = map fst m" by (simp add: update_keys)
      have "filter (\<lambda>w. w \<notin> fst ` set m) (filter (\<lambda>y. y \<noteq> ?v) (firstOccurrences (countedValues l ts)))
          = filter (\<lambda>w. w \<notin> insert ?v (fst ` set m)) (firstOccurrences (countedValues l ts))"
        unfolding filter_filter by (rule filter_cong) auto
      with True k show ?thesis by (simp only: cv keys firstOccurrences.simps filter.simps if_False simp_thms)
    next
      case False
      then have k: "map fst ?m = map fst m @ [?v]" by (simp add: update_keys)
      have "filter (\<lambda>w. w \<notin> fst ` set m) (filter (\<lambda>y. y \<noteq> ?v) (firstOccurrences (countedValues l ts)))
          = filter (\<lambda>w. w \<notin> insert ?v (fst ` set m)) (firstOccurrences (countedValues l ts))"
        unfolding filter_filter by (rule filter_cong) auto
      with False k show ?thesis
        by (simp only: cv keys firstOccurrences.simps filter.simps if_True simp_thms append_assoc append.simps)
    qed
    finally show ?thesis .
  qed
qed

lemma getOrEmpty_update:
  "getOrEmpty (AList.update w e m) v = (if v = w then e else getOrEmpty m v)"
  by (simp add: getOrEmpty_def update_conv')

lemma collect_values:
  "getOrEmpty (collectValues l ts m) v =
     getOrEmpty m v @ map Translation.key_path (filter (\<lambda>t. \<not> isBlank (valueOf l t) \<and> valueOf l t = Some v) ts)"
proof (induction ts arbitrary: m)
  case Nil
  show ?case by simp
next
  case (Cons t ts)
  show ?case
  proof (cases "isBlank (valueOf l t)")
    case True
    with Cons show ?thesis by simp
  next
    case False
    then obtain w where w: "valueOf l t = Some w" by (cases "valueOf l t") (auto simp: isBlank_def)
    with False Cons.IH [of "AList.update w (getOrEmpty m w @ [Translation.key_path t]) m"]
    show ?thesis by (auto simp: Let_def getOrEmpty_update)
  qed
qed

lemma counted_paths:
  assumes "v \<in> set (countedValues l ts)"
  shows "map Translation.key_path (filter (\<lambda>t. \<not> isBlank (valueOf l t) \<and> valueOf l t = Some v) ts) = pathsWith l v ts"
proof -
  from assms obtain t0 where "\<not> isBlank (valueOf l t0)" "the (valueOf l t0) = v"
    by (auto simp: countedValues_def)
  then have nb: "\<not> isBlank (Some v)" by (cases "valueOf l t0") (auto simp: isBlank_def)
  have "filter (\<lambda>t. \<not> isBlank (valueOf l t) \<and> valueOf l t = Some v) ts = filter (\<lambda>t. valueOf l t = Some v) ts"
    by (rule filter_cong) (use nb in auto)
  then show ?thesis by (simp add: pathsWith_def)
qed

lemma collect_from_empty:
  "collectValues l ts [] = map (\<lambda>v. (v, pathsWith l v ts)) (firstOccurrences (countedValues l ts))"
proof -
  let ?r = "collectValues l ts []"
  let ?ks = "firstOccurrences (countedValues l ts)"
  have d: "distinct (map fst ?r)" by (rule collect_distinct) simp
  have k: "map fst ?r = ?ks" by (simp add: collect_keys)
  have "?r = map (\<lambda>k. (k, the (map_of ?r k))) ?ks"
    using alist_rebuild [OF d] k by simp
  also have "\<dots> = map (\<lambda>v. (v, pathsWith l v ts)) ?ks"
  proof (rule map_cong [OF refl])
    fix v assume v: "v \<in> set ?ks"
    then have vc: "v \<in> set (countedValues l ts)" by (simp add: set_firstOccurrences)
    from v k have "v \<in> fst ` set ?r" by (metis set_map)
    then obtain e where e: "map_of ?r v = Some e"
      by (metis domD dom_map_of_conv_image_fst)
    then have "e = getOrEmpty ?r v" by (simp add: getOrEmpty_def)
    also have "\<dots> = pathsWith l v ts"
      using collect_values [of l ts "[]" v] counted_paths [OF vc] by (simp add: getOrEmpty_def)
    finally show "(v, the (map_of ?r v)) = (v, pathsWith l v ts)" using e by simp
  qed
  finally show ?thesis .
qed

lemma emitGroups_spec:
  "emitGroups l (collectValues l ts []) = specDuplicatesFor l ts"
  by (simp add: collect_from_empty emitGroups_def specDuplicatesFor_def filter_map comp_def
      Suc_le_eq numeral_2_eq_2 less_Suc_eq_le)

lemma findDuplicateValues_spec: "findDuplicateValues ts = specDuplicates ts"
  by (simp add: findDuplicateValues_def specDuplicates_def emitGroups_spec)

lemmas duplicates_eval = findDuplicateValues_def emitGroups_def getOrEmpty_def isBlank_def trim_def
  isWhitespace_def row_def Let_def

lemma duplicates_example:
  "findDuplicateValues [row ''a'' None (Some ''Hello'') None, row ''b'' None (Some ''Hello'') None,
       row ''c'' None (Some ''World'') None] =
     [\<lparr> group_value = ''Hello'', language = EN, keyPaths = [''a'', ''b''] \<rparr>]"
  by (simp add: duplicates_eval)

lemma pathsWith_distinct: "distinct (map Translation.key_path ts) \<Longrightarrow> distinct (pathsWith l v ts)"
  by (simp add: pathsWith_def distinct_map_filter)

text \<open>
  Claim C8, as amended. For every row list, the detector returns what the specification
  describes when a value counts as duplicated as soon as at least two rows carry it:
  languages in the order az, en, ru; per language the non-blank values in order of first
  occurrence; per value the key paths of its rows in row order. When the key paths of the
  row list are distinct, as the data model requires, every group has at least two distinct
  key paths. The rows a: Hello, b: Hello, c: World (en) yield the single group of the
  specification.
\<close>

theorem findDuplicateValues_groups:
  "findDuplicateValues ts = specDuplicates ts \<and>
   (distinct (map Translation.key_path ts) \<longrightarrow>
      (\<forall>g \<in> set (findDuplicateValues ts). distinct (keyPaths g) \<and> 2 \<le> card (set (keyPaths g)))) \<and>
   findDuplicateValues [row ''a'' None (Some ''Hello'') None, row ''b'' None (Some ''Hello'') None,
       row ''c'' None (Some ''World'') None] =
     [\<lparr> group_value = ''Hello'', language = EN, keyPaths = [''a'', ''b''] \<rparr>]"
proof (intro conjI impI ballI)
  show "findDuplicateValues ts = specDuplicates ts" by (rule findDuplicateValues_spec)
  show "findDuplicateValues [row ''a'' None (Some ''Hello'') None, row ''b'' None (Some ''Hello'') None,
       row ''c'' None (Some ''World'') None] =
     [\<lparr> group_value = ''Hello'', language = EN, keyPaths = [''a'', ''b''] \<rparr>]"
    by (rule duplicates_example)
next
  fix g assume d: "distinct (map Translation.key_path ts)" and g: "g \<in> set (findDuplicateValues ts)"
  from g obtain l v where kp: "keyPaths g = pathsWith l v ts" and len: "2 \<le> length (pathsWith l v ts)"
    by (auto simp: findDuplicateValues_spec specDuplicates_def specDuplicatesFor_def)
  from d have dk: "distinct (pathsWith l v ts)" by (rule pathsWith_distinct)
  show "distinct (keyPaths g)" using kp dk by simp
  show "2 \<le> card (set (keyPaths g))" using kp dk len by (simp add: distinct_card)
qed

theorem findDuplicateValues_groups_witness:
  "distinct (map Translation.key_path [row ''a'' (Some ''x'') None None, row ''b'' (Some ''y'') None (Some ''  ''),
       row ''c'' (Some ''y'') None (Some ''  ''), row ''d'' (Some ''x'') None None]) \<and>
   findDuplicateValues [row ''a'' (Some ''x'') None None, row ''b'' (Some ''y'') None (Some ''  ''),
       row ''c'' (Some ''y'') None (Some ''  ''), row ''d'' (Some ''x'') None None] =
     [\<lparr> group_value = ''x'', language = AZ, keyPaths = [''a'', ''d''] \<rparr>,
      \<lparr> group_value = ''y'', language = AZ, keyPaths = [''b'', ''c''] \<rparr>] \<and>
   2 \<le> card (set [''a'', ''d''])"
proof -
  let ?ts = "[row ''a'' (Some ''x'') None None, row ''b'' (Some ''y'') None (Some ''  ''),
       row ''c'' (Some ''y'') None (Some ''  ''), row ''d'' (Some ''x'') None None]"
  have d: "distinct (map Translation.key_path ?ts)" by (simp add: row_def)
  have e: "findDuplicateValues ?ts =
     [\<lparr> group_value = ''x'', language = AZ, keyPaths = [''a'', ''d''] \<rparr>,
      \<lparr> group_value = ''y'', language = AZ, keyPaths = [''b'', ''c''] \<rparr>]"
    by (simp add: duplicates_eval)
  have "\<forall>g \<in> set (findDuplicateValues ?ts). distinct (keyPaths g) \<and> 2 \<le> card (set (keyPaths g))"
    using findDuplicateValues_groups [of ?ts] d by blast
  then have "2 \<le> card (set [''a'', ''d''])" unfolding e by simp
  with d e show ?thesis by blast
qed

text \<open>
  Claim C8 as stated fails on a row list that repeats a key path: two rows with key path
  \<open>a\<close> and the en value Hello yield a group, although the value occurs under one distinct
  key path only.
\<close>

theorem findDuplicateValues_counts_rows:
  "findDuplicateValues [row ''a'' None (Some ''Hello'') None, row ''a'' None (Some ''Hello'') None] =
     [\<lparr> group_value = ''Hello'', language = EN, keyPaths = [''a'', ''a''] \<rparr>] \<and>
   card (set [''a'', ''a'']) = 1"
  by (simp add: duplicates_eval)

section \<open>The flattener\<close>

lemma mergeLeaf_fields [simp]:
  "rows (mergeLeaf l p child v st) = applyEvent (rows st) (l, p, child, v)"
  "groupExtensions (mergeLeaf l p child v st) = groupExtensions st"
  by (simp_all add: mergeLeaf_def applyEvent_def)

lemma recordGroup_rows [simp]: "rows (recordGroup p child st) = rows st"
  by (simp add: recordGroup_def split: option.splits)

lemma flattenEntries_rows:
  "rows (flattenEntries es p l st) = foldl applyEvent (rows st) (map (Pair l) (leafEvents es p))"
proof (induction es p l st rule: flattenEntries.induct)
  case (1 p l st)
  show ?case by simp
next
  case (2 k v rest p l st)
  show ?case
  proof (cases "k = ''$extensions'' \<or> \<not> isObjectLike v")
    case True
    with 2(1) show ?thesis by simp
  next
    case False
    show ?thesis
    proof (cases "getProp v ''$value''")
      case None
      with False 2 show ?thesis by (simp add: Let_def)
    next
      case (Some leafValue)
      with False 2 show ?thesis by (simp add: Let_def)
    qed
  qed
qed

lemma flattenJsons_rows:
  "result_rows (flattenJsons az en ru) = map snd (foldl applyEvent [] (occurrences az en ru))"
  by (simp add: flattenJsons_def flattenIf_def flattenNode_def flattenEntries_rows occurrences_def
      treeEvents_def Let_def)

lemma map_of_foldl_applyEvent:
  "map_of (foldl applyEvent rs evs) p = rowAt p (map_of rs p) evs"
proof (induction evs arbitrary: rs)
  case Nil
  show ?case by (simp add: rowAt_def)
next
  case (Cons ev evs)
  obtain l q child v where ev: "ev = (l, q, child, v)" by (cases ev) auto
  have "map_of (applyEvent rs ev) p = (if q = p then Some (mergeRow l q child v (map_of rs p)) else map_of rs p)"
    by (simp add: ev applyEvent_def update_conv')
  with Cons.IH [of "applyEvent rs ev"] show ?case by (simp add: rowAt_def ev)
qed

lemma distinct_foldl_applyEvent:
  "distinct (map fst rs) \<Longrightarrow> distinct (map fst (foldl applyEvent rs evs))"
  by (induction evs arbitrary: rs) (auto simp: applyEvent_def distinct_update)

lemma rowAt_snoc:
  "rowAt p start (evs @ [(l, q, child, v)]) =
     (if q = p then Some (mergeRow l q child v (rowAt p start evs)) else rowAt p start evs)"
  by (simp add: rowAt_def)

lemma setLangValue_other [simp]:
  "key_path (setLangValue l v r) = key_path r"
  "token_type (setLangValue l v r) = token_type r"
  "figma_variable_id (setLangValue l v r) = figma_variable_id r"
  by (cases l; simp)+

lemma mergeRow_key_path:
  "key_path (mergeRow l p child v found) = (case found of Some r \<Rightarrow> key_path r | None \<Rightarrow> p)"
  by (simp add: mergeRow_def newRow_def Let_def split: option.splits)

lemma mergeRow_figma:
  "figma_variable_id (mergeRow l p child v found) =
     (case leafVariableId child of
        Some vid \<Rightarrow> vid
      | None \<Rightarrow> (case found of Some r \<Rightarrow> figma_variable_id r | None \<Rightarrow> JNull))"
  by (simp add: mergeRow_def newRow_def leafVariableId_def orElse_def Let_def split: option.splits)

lemma variableIdsAt_snoc:
  "variableIdsAt p (evs @ [(l, q, child, v)]) =
     variableIdsAt p evs @ (if q = p then (case leafVariableId child of Some vid \<Rightarrow> [vid] | None \<Rightarrow> []) else [])"
  by (simp add: variableIdsAt_def List.map_filter_def split: option.splits)

lemma rowAt_figma:
  "(case rowAt p None evs of
      None \<Rightarrow> variableIdsAt p evs = []
    | Some r \<Rightarrow> key_path r = p \<and> figma_variable_id r = lastOr JNull (variableIdsAt p evs))"
proof (induction evs rule: rev_induct)
  case Nil
  show ?case by (simp add: rowAt_def variableIdsAt_def List.map_filter_def)
next
  case (snoc ev evs)
  obtain l q child v where ev: "ev = (l, q, child, v)" by (cases ev) auto
  show ?case
  proof (cases "q = p")
    case False
    with snoc show ?thesis by (simp add: ev rowAt_snoc variableIdsAt_snoc split: option.splits)
  next
    case True
    with snoc show ?thesis
      by (auto simp: ev rowAt_snoc variableIdsAt_snoc mergeRow_figma mergeRow_key_path lastOr_def
          split: option.splits)
  qed
qed

lemma flattenJsons_row_lookup:
  assumes "r \<in> set (result_rows (flattenJsons az en ru))"
  shows "rowAt (key_path r) None (occurrences az en ru) = Some r"
proof -
  let ?rs = "foldl applyEvent [] (occurrences az en ru)"
  from assms obtain p where pr: "(p, r) \<in> set ?rs" by (auto simp: flattenJsons_rows)
  have "distinct (map fst ?rs)" by (rule distinct_foldl_applyEvent) simp
  with pr have "map_of ?rs p = Some r" by simp
  then have at: "rowAt p None (occurrences az en ru) = Some r"
    by (simp add: map_of_foldl_applyEvent)
  with rowAt_figma [of p "occurrences az en ru"] have "key_path r = p" by simp
  with at show ?thesis by simp
qed

lemmas flatten_eval = flattenJsons_def flattenIf_def flattenNode_def mergeLeaf_def mergeRow_def
  recordGroup_def newRow_def joinPath_def orElse_def variableIdOf_def Let_def

text \<open>
  Claim C1, as amended. For every triple of input trees and every row of the result, the
  row's \<open>figma_variable_id\<close> is the variable id of the last leaf occurrence at the row's
  path that carries one, in the processing order az, en, ru (and \<^verbatim>\<open>null\<close> when none
  does): a later occurrence with a variable id replaces the id set by an earlier one.
\<close>

theorem figma_variable_id_last_wins:
  "r \<in> set (result_rows (flattenJsons azJson enJson ruJson)) \<Longrightarrow>
     figma_variable_id r = lastOr JNull (variableIdsAt (key_path r) (occurrences azJson enJson ruJson))"
  using flattenJsons_row_lookup [of r azJson enJson ruJson]
    rowAt_figma [of "key_path r" "occurrences azJson enJson ruJson"] by simp

theorem figma_variable_id_last_wins_witness:
  "\<lparr> key_path = ''a'', az_value = JStr ''X'', en_value = JStr ''Y'', ru_value = JNull,
      token_type = JNull, figma_variable_id = JStr ''V2'' \<rparr>
     \<in> set (result_rows (flattenJsons (JObj [(''a'', figmaLeaf ''X'' ''V1'')])
           (JObj [(''a'', figmaLeaf ''Y'' ''V2'')]) JNull)) \<and>
   lastOr JNull (variableIdsAt ''a'' (occurrences (JObj [(''a'', figmaLeaf ''X'' ''V1'')])
           (JObj [(''a'', figmaLeaf ''Y'' ''V2'')]) JNull)) = JStr ''V2''"
proof -
  let ?r = "\<lparr> key_path = ''a'', az_value = JStr ''X'', en_value = JStr ''Y'', ru_value = JNull,
      token_type = JNull, figma_variable_id = JStr ''V2'' \<rparr>"
  have m: "?r \<in> set (result_rows (flattenJsons (JObj [(''a'', figmaLeaf ''X'' ''V1'')])
           (JObj [(''a'', figmaLeaf ''Y'' ''V2'')]) JNull))"
    by (simp add: flatten_eval figmaLeaf_def)
  from figma_variable_id_last_wins [OF m] m show ?thesis by simp
qed

text \<open>
  Claim C1 as stated fails: the az tree carries the id V1 at path \<open>a\<close>, the en tree the id
  V2 at the same path, and the row ends with V2, not with the first id met.
\<close>

theorem figma_variable_id_first_replaced:
  "map figma_variable_id (result_rows (flattenJsons (JObj [(''a'', figmaLeaf ''X'' ''V1'')])
       (JObj [(''a'', figmaLeaf ''Y'' ''V2'')]) JNull)) = [JStr ''V2'']"
  by (simp add: flatten_eval figmaLeaf_def)

lemma showNat_nonempty: "showNat n \<noteq> []"
  by (subst showNat.simps) simp

lemma rowAt_Some_event:
  "rowAt p None evs = Some r \<Longrightarrow> \<exists>l child v. (l, p, child, v) \<in> set evs"
proof (induction evs arbitrary: r rule: rev_induct)
  case Nil
  then show ?case by (simp add: rowAt_def)
next
  case (snoc ev evs)
  obtain l q child v where ev: "ev = (l, q, child, v)" by (cases ev) auto
  with snoc show ?case by (cases "q = p") (auto simp: rowAt_snoc)
qed

lemma goodEntries_indexed: "list_all noEmptyKeys xs \<Longrightarrow> goodEntries (indexed i xs)"
  by (induction xs arbitrary: i) (auto simp: goodEntries_def showNat_nonempty)

lemma goodEntries_entries:
  assumes "noEmptyKeys v"
  shows "goodEntries (entries v)"
  using assms
proof (cases v)
  case (JStr s)
  have "list_all noEmptyKeys (map (\<lambda>c. JStr [c]) s)" by (simp add: list_all_iff)
  with JStr show ?thesis by (simp add: goodEntries_indexed)
next
  case (JArr xs)
  with assms show ?thesis by (simp add: goodEntries_indexed)
next
  case (JObj kvs)
  with assms show ?thesis by (simp add: goodEntries_def)
qed (simp_all add: goodEntries_def)

lemma leafEvents_path_nonempty:
  "goodEntries es \<Longrightarrow> (q, child, v) \<in> set (leafEvents es p) \<Longrightarrow> q \<noteq> []"
proof (induction es p rule: leafEvents.induct)
  case (1 p)
  then show ?case by simp
next
  case (2 k w rest p)
  from "2.prems" have k: "k \<noteq> []" and w: "noEmptyKeys w" and rest: "goodEntries rest"
    by (auto simp: goodEntries_def)
  show ?case
  proof (cases "k = ''$extensions'' \<or> \<not> isObjectLike w")
    case True
    with 2 rest show ?thesis by simp
  next
    case False
    show ?thesis
    proof (cases "getProp w ''$value''")
      case None
      with False "2.IH" "2.prems" rest goodEntries_entries [OF w] show ?thesis by auto
    next
      case (Some leafValue)
      with False "2.IH" "2.prems" rest k show ?thesis by (auto simp: joinPath_def split: if_splits)
    qed
  qed
qed

text \<open>
  Claim C5, as amended. For every triple of input trees in which no object has the empty
  string as a property name, every row produced by \<open>flattenJsons\<close> has a non-empty
  \<open>key_path\<close>.
\<close>

theorem key_path_nonempty:
  assumes "noEmptyKeys azJson" "noEmptyKeys enJson" "noEmptyKeys ruJson"
    and "r \<in> set (result_rows (flattenJsons azJson enJson ruJson))"
  shows "key_path r \<noteq> []"
proof -
  from assms(4) have "rowAt (key_path r) None (occurrences azJson enJson ruJson) = Some r"
    by (rule flattenJsons_row_lookup)
  then obtain l child v where "(l, key_path r, child, v) \<in> set (occurrences azJson enJson ruJson)"
    using rowAt_Some_event by blast
  then obtain t where "noEmptyKeys t" "(key_path r, child, v) \<in> set (leafEvents (entries t) [])"
    using assms(1-3) by (auto simp: occurrences_def treeEvents_def split: if_splits)
  then show ?thesis using leafEvents_path_nonempty goodEntries_entries by blast
qed

theorem key_path_nonempty_witness:
  "noEmptyKeys (JObj [(''a'', JObj [(''b'', JObj [(''$value'', JStr ''X'')])])]) \<and>
   noEmptyKeys JNull \<and>
   \<lparr> key_path = ''a.b'', az_value = JStr ''X'', en_value = JNull, ru_value = JNull,
      token_type = JNull, figma_variable_id = JNull \<rparr>
     \<in> set (result_rows (flattenJsons (JObj [(''a'', JObj [(''b'', JObj [(''$value'', JStr ''X'')])])])
           JNull JNull)) \<and>
   ''a.b'' \<noteq> []"
proof -
  let ?t = "JObj [(''a'', JObj [(''b'', JObj [(''$value'', JStr ''X'')])])]"
  let ?r = "\<lparr> key_path = ''a.b'', az_value = JStr ''X'', en_value = JNull, ru_value = JNull,
      token_type = JNull, figma_variable_id = JNull \<rparr>"
  have n: "noEmptyKeys ?t" "noEmptyKeys JNull" by simp_all
  have m: "?r \<in> set (result_rows (flattenJsons ?t JNull JNull))"
    by (simp add: flatten_eval)
  from key_path_nonempty [OF n(1) n(2) n(2) m] n m show ?thesis by simp
qed

text \<open>
  Claim C5 as stated fails: the well-formed document \<^verbatim>\<open>{"": {"$value": "X"}}\<close> yields a
  row whose \<open>key_path\<close> is the empty string.
\<close>

theorem key_path_empty_for_empty_key:
  "map key_path (result_rows (flattenJsons (JObj [('''', JObj [(''$value'', JStr ''X'')])]) JNull JNull))
     = ['''']"
  by (simp add: flatten_eval)

section \<open>The builder\<close>

subsection \<open>Assignment to a property\<close>

lemma map_of_insertIndex:
  "k \<notin> fst ` set ps \<Longrightarrow> map_of (insertIndex k v ps) = (map_of ps)(k \<mapsto> v)"
proof (induction ps)
  case Nil
  show ?case by simp
next
  case (Cons p ps)
  then have "fst p \<noteq> k" and "k \<notin> fst ` set ps" by auto
  with Cons.IH show ?case by (cases p) (auto simp: fun_upd_twist)
qed

lemma map_of_setProp: "map_of (setProp k v ps) = (map_of ps)(k \<mapsto> v)"
  by (simp add: setProp_def map_of_insertIndex update_conv')

lemma set_insertIndex: "set (insertIndex k v ps) = insert (k, v) (set ps)"
  by (induction ps) auto

lemma set_update_sub: "set (AList.update k v ps) \<subseteq> insert (k, v) (set ps)"
  by (induction ps) auto

lemma set_setProp: "set (setProp k v ps) \<subseteq> insert (k, v) (set ps)"
proof (cases "isArrayIndex k \<and> k \<notin> fst ` set ps")
  case True
  then show ?thesis by (simp add: setProp_def set_insertIndex)
next
  case False
  then show ?thesis using set_update_sub [of k v ps] by (auto simp: setProp_def set_insertIndex)
qed

lemma keys_setProp: "fst ` set (setProp k v ps) = insert k (fst ` set ps)"
proof -
  have "dom (map_of (setProp k v ps)) = insert k (dom (map_of ps))"
    by (simp add: map_of_setProp)
  then show ?thesis by (simp add: dom_map_of_conv_image_fst)
qed

lemma distinct_insertIndex:
  "distinct (map fst ps) \<Longrightarrow> k \<notin> fst ` set ps \<Longrightarrow> distinct (map fst (insertIndex k v ps))"
  by (induction ps) (auto simp: set_insertIndex)

lemma distinct_setProp: "distinct (map fst ps) \<Longrightarrow> distinct (map fst (setProp k v ps))"
  by (simp add: setProp_def distinct_insertIndex distinct_update)

subsection \<open>Walking a path\<close>


lemma walk_first:
  assumes "walk segs lastSeg newValue cur = Inr cur'"
  shows "map_of cur' (hd (segs @ [lastSeg])) \<noteq> None"
proof (cases segs)
  case Nil
  with assms show ?thesis by (auto simp: map_of_setProp split: if_splits)
next
  case (Cons seg rest)
  with assms show ?thesis
    by (auto simp: map_of_setProp split: option.splits json.splits sum.splits if_splits)
qed







subsection \<open>Where the builder returns\<close>

lemma safeTree_setProp:
  assumes "safeTree (JObj cur)" "safeTree v" "v = JNull \<longrightarrow> k = ''$type''"
  shows "safeTree (JObj (setProp k v cur))"
  using assms set_setProp [of k v cur] by (auto simp: list_all_iff)

lemma safeTree_member:
  "safeTree (JObj cur) \<Longrightarrow> (k, v) \<in> set cur \<Longrightarrow>
     safeTree v \<and> (v = JNull \<longrightarrow> k = ''$type'')"
  by (fastforce simp: list_all_iff)

lemma walk_total:
  assumes "list_all (\<lambda>s. s \<noteq> ''$type'' \<and> s \<noteq> ''__proto__'') segs" "lastSeg \<noteq> ''__proto__''"
    "safeTree (JObj cur)" "safeTree newValue" "newValue \<noteq> JNull"
  shows "\<exists>cur'. walk segs lastSeg newValue cur = Inr cur' \<and> safeTree (JObj cur')"
  using assms
proof (induction segs arbitrary: cur)
  case Nil
  then show ?case using safeTree_setProp [of cur newValue lastSeg] by simp
next
  case (Cons seg segs)
  then have seg: "seg \<noteq> ''$type''" "seg \<noteq> ''__proto__''"
    and segs: "list_all (\<lambda>s. s \<noteq> ''$type'' \<and> s \<noteq> ''__proto__'') segs" by auto
  have enter: "\<exists>cur'. (case walk segs lastSeg newValue child of Inl e \<Rightarrow> Inl e
            | Inr child' \<Rightarrow> Inr (setProp seg (JObj child') cur)) = Inr cur' \<and> safeTree (JObj cur')"
    if "safeTree (JObj child)" for child
  proof -
    from Cons.IH [OF segs Cons.prems(2) that Cons.prems(4,5)] obtain child'
      where "walk segs lastSeg newValue child = Inr child'" "safeTree (JObj child')" by blast
    then show ?thesis using safeTree_setProp [OF Cons.prems(3), of "JObj child'" seg] by simp
  qed
  show ?case
  proof (cases "map_of cur seg")
    case None
    with enter [of "[]"] seg show ?thesis by simp
  next
    case (Some held)
    then have mem: "(seg, held) \<in> set cur" by (rule map_of_SomeD)
    show ?thesis
    proof (cases held)
      case JNull
      with safeTree_member [OF Cons.prems(3) mem] seg show ?thesis by simp
    next
      case (JBool b)
      with Some enter [of "[]"] show ?thesis by simp
    next
      case (JNum n)
      with Some enter [of "[]"] show ?thesis by simp
    next
      case (JStr s)
      with Some enter [of "[]"] show ?thesis by simp
    next
      case (JArr xs)
      with safeTree_member [OF Cons.prems(3) mem] show ?thesis by simp
    next
      case (JObj child)
      with safeTree_member [OF Cons.prems(3) mem] have "safeTree (JObj child)" by simp
      with Some JObj enter [of child] show ?thesis by simp
    qed
  qed
qed

lemma leafToken_ok:
  "safeTree v \<Longrightarrow> safeTree ty \<Longrightarrow> v \<noteq> JNull \<Longrightarrow> safeTree (leafToken v ty)"
  "leafToken v ty \<noteq> JNull"
  by (simp_all add: leafToken_def)

lemma placeValue_shape:
  assumes "placeValue topKey val path ty result = Inr r" "topShape result"
  shows "topShape r"
proof (cases "val = JNull")
  case True
  with assms show ?thesis by (simp add: placeValue_def)
next
  case False
  from assms(2) obtain a e u where
    res: "result = [(''Translations/AZ'', JObj a), (''Translations/EN'', JObj e), (''Translations/RU'', JObj u)]"
    by (auto simp: topShape_def)
  from assms(1) False obtain sub sub' where
    "map_of result topKey = Some (JObj sub)" "r = AList.update topKey (JObj sub') result"
    by (auto simp: placeValue_def split: option.splits json.splits sum.splits)
  then show ?thesis unfolding res topShape_def by (auto split: if_splits)
qed

lemma buildRows_shape: "buildRows ts result = Inr r \<Longrightarrow> topShape result \<Longrightarrow> topShape r"
proof (induction ts arbitrary: result)
  case Nil
  then show ?case by simp
next
  case (Cons t ts)
  from Cons.prems(1) obtain r1 r2 r3 where
    p: "placeValue ''Translations/AZ'' (az_value t) (key_path t)
          (rewriteJsonType (token_type t)) result = Inr r1"
       "placeValue ''Translations/EN'' (en_value t) (key_path t)
          (rewriteJsonType (token_type t)) r1 = Inr r2"
       "placeValue ''Translations/RU'' (ru_value t) (key_path t)
          (rewriteJsonType (token_type t)) r2 = Inr r3"
    and b: "buildRows ts r3 = Inr r"
    by (auto simp: Let_def split: sum.splits)
  from p Cons.prems(2) have "topShape r3" by (blast intro: placeValue_shape)
  with b show ?case by (rule Cons.IH)
qed

lemma buildDeveloperJsonRows_shape:
  "buildDeveloperJsonRows ts = Inr r \<Longrightarrow>
     \<exists>a e u. r = JObj [(''Translations/AZ'', JObj a), (''Translations/EN'', JObj e),
                        (''Translations/RU'', JObj u)]"
proof -
  assume "buildDeveloperJsonRows ts = Inr r"
  then obtain res where
    b: "buildRows ts [(''Translations/AZ'', JObj []), (''Translations/EN'', JObj []),
          (''Translations/RU'', JObj [])] = Inr res" and r: "r = JObj res"
    by (auto simp: buildDeveloperJsonRows_def split: sum.splits)
  have "topShape res" by (rule buildRows_shape [OF b]) (simp add: topShape_def)
  with r show ?thesis by (simp add: topShape_def)
qed

lemma buildDeveloperJson_shape:
  "buildDeveloperJson ts = Inr r \<Longrightarrow>
     \<exists>a e u. r = JObj [(''Translations/AZ'', JObj a), (''Translations/EN'', JObj e),
                        (''Translations/RU'', JObj u)]"
  unfolding buildDeveloperJson_def by (rule buildDeveloperJsonRows_shape)

lemma buildDeveloperJson_empty:
  "buildDeveloperJson [] = Inr (JObj [(''Translations/AZ'', JObj []), (''Translations/EN'', JObj []),
      (''Translations/RU'', JObj [])])"
  by (simp add: buildDeveloperJson_def buildDeveloperJsonRows_def)

lemma plainValue_safe: "plainValue v \<Longrightarrow> safeTree v"
  by (cases v) (simp_all add: plainValue_def)

lemma plainValue_rewrite: "plainValue ty \<Longrightarrow> plainValue (rewriteJsonType ty)"
  by (simp add: rewriteJsonType_def plainValue_def)

lemma plainPath_walk:
  assumes "plainPath p"
  shows "list_all (\<lambda>s. s \<noteq> ''$type'' \<and> s \<noteq> ''__proto__'') (butlast (splitDot p)) \<and>
         last (splitDot p) \<noteq> ''__proto__''"
proof -
  have ne: "splitDot p \<noteq> []" by (rule splitDot_nonempty)
  then have "set (butlast (splitDot p)) \<subseteq> set (splitDot p)" by (simp add: in_set_butlastD subsetI)
  moreover from ne have "last (splitDot p) \<in> set (splitDot p)" by simp
  ultimately show ?thesis using assms by (auto simp: plainPath_def list_all_iff)
qed

lemma placeValue_total:
  assumes "subtreesOk result" "plainPath path" "plainValue val" "plainValue ty"
    "topKey \<in> {''Translations/AZ'', ''Translations/EN'', ''Translations/RU''}"
  shows "\<exists>r. placeValue topKey val path ty result = Inr r \<and> subtreesOk r"
proof (cases "val = JNull")
  case True
  with assms show ?thesis by (simp add: placeValue_def)
next
  case False
  from assms(1) obtain a e u where
    res: "result = [(''Translations/AZ'', JObj a), (''Translations/EN'', JObj e), (''Translations/RU'', JObj u)]"
    and ok: "safeTree (JObj a)" "safeTree (JObj e)" "safeTree (JObj u)"
    by (auto simp: subtreesOk_def topShape_def)
  from assms(5) res ok obtain sub where
    sub: "map_of result topKey = Some (JObj sub)" "safeTree (JObj sub)" by auto
  note pw = plainPath_walk [OF assms(2)]
  have tok: "safeTree (leafToken val ty)"
    using assms(3,4) False by (intro leafToken_ok) (simp_all add: plainValue_safe)
  from walk_total [OF pw [THEN conjunct1] pw [THEN conjunct2] sub(2) tok leafToken_ok(2)]
  obtain sub' where
    w: "setNestedValue sub path (leafToken val ty) = Inr sub'" "safeTree (JObj sub')"
    by (auto simp: setNestedValue_def Let_def)
  have "subtreesOk (AList.update topKey (JObj sub') result)"
    using assms(5) w(2) ok unfolding res subtreesOk_def topShape_def by auto
  with False sub w show ?thesis by (simp add: placeValue_def)
qed

lemma buildRows_total:
  assumes "subtreesOk result"
    "\<forall>t \<in> set ts. plainPath (key_path t) \<and> plainValue (az_value t) \<and> plainValue (en_value t) \<and>
       plainValue (ru_value t) \<and> plainValue (token_type t)"
  shows "\<exists>r. buildRows ts result = Inr r"
  using assms
proof (induction ts arbitrary: result)
  case Nil
  show ?case by simp
next
  case (Cons t ts)
  let ?p = "key_path t"
  let ?ty = "rewriteJsonType (token_type t)"
  from Cons.prems(2) have p: "plainPath ?p" and ty: "plainValue ?ty"
    and v: "plainValue (az_value t)" "plainValue (en_value t)" "plainValue (ru_value t)"
    by (simp_all add: plainValue_rewrite)
  from placeValue_total [OF Cons.prems(1) p v(1) ty, of "''Translations/AZ''"]
  obtain r1 where r1: "placeValue ''Translations/AZ'' (az_value t) ?p ?ty result = Inr r1"
    "subtreesOk r1" by auto
  from placeValue_total [OF r1(2) p v(2) ty, of "''Translations/EN''"]
  obtain r2 where r2: "placeValue ''Translations/EN'' (en_value t) ?p ?ty r1 = Inr r2"
    "subtreesOk r2" by auto
  from placeValue_total [OF r2(2) p v(3) ty, of "''Translations/RU''"]
  obtain r3 where r3: "placeValue ''Translations/RU'' (ru_value t) ?p ?ty r2 = Inr r3"
    "subtreesOk r3" by auto
  from Cons.IH [OF r3(2)] Cons.prems(2) obtain r where "buildRows ts r3 = Inr r" by auto
  with r1 r2 r3 show ?case by (simp add: Let_def)
qed

lemma plainValue_optJson: "plainValue (optJson v)"
  by (cases v) (simp_all add: optJson_def plainValue_def)

lemma buildDeveloperJson_total:
  assumes "\<forall>t \<in> set ts. ''$type'' \<notin> set (butlast (splitDot (Translation.key_path t))) \<and>
      ''__proto__'' \<notin> set (splitDot (Translation.key_path t))"
  shows "\<exists>r. buildDeveloperJson ts = Inr r"
proof -
  have ok: "subtreesOk [(''Translations/AZ'', JObj []), (''Translations/EN'', JObj []),
      (''Translations/RU'', JObj [])]"
    by (simp add: subtreesOk_def topShape_def)
  have "\<forall>t \<in> set (map asRow ts). plainPath (key_path t) \<and> plainValue (az_value t) \<and>
      plainValue (en_value t) \<and> plainValue (ru_value t) \<and> plainValue (token_type t)"
    using assms by (simp add: asRow_def plainPath_def plainValue_optJson)
  from buildRows_total [OF ok this] show ?thesis
    by (auto simp: buildDeveloperJson_def buildDeveloperJsonRows_def)
qed

subsection \<open>A path through a property that is already there\<close>

lemmas builder_eval = buildDeveloperJson_def buildDeveloperJsonRows_def asRow_def optJson_def
  placeValue_def setNestedValue_def leafToken_def rewriteJsonType_def setProp_def isArrayIndex_def
  isDigit_def row_def Let_def




subsection \<open>A path through a null\<close>

lemma throw_example:
  "buildDeveloperJson [row ''a'' (Some ''X'') None None, row ''a.$type.x'' (Some ''Y'') None None] =
     Inl TypeError"
  by (simp add: builder_eval)

text \<open>
  Claim C10. The claim holds wherever \<open>buildDeveloperJson\<close> returns
  (\<open>buildDeveloperJson_shape\<close>, \<open>buildDeveloperJson_empty\<close>), and it returns whenever no key
  path has \<^verbatim>\<open>$type\<close> among its segments before the last or \<^verbatim>\<open>__proto__\<close> among its
  segments (\<open>buildDeveloperJson_total\<close>). It does not return for every list: the row \<open>a\<close>
  without a token type stores \<^verbatim>\<open>$type: null\<close>, and the row \<^verbatim>\<open>a.$type.x\<close> then
  walks into that \<^verbatim>\<open>null\<close>, since \<^verbatim>\<open>typeof null\<close> is \<^verbatim>\<open>'object'\<close>, and the
  assignment throws.
\<close>

theorem buildDeveloperJson_throws:
  "buildDeveloperJson [row ''a'' (Some ''X'') None None, row ''a.$type.x'' (Some ''Y'') None None] =
     Inl TypeError"
  by (rule throw_example)

subsection \<open>Paths through a prototype\<close>

text \<open>
  The two paths through \<^verbatim>\<open>__proto__\<close> that end in a \<^verbatim>\<open>TypeError\<close>, and two that
  leave the model: one writes the property \<open>x\<close> of \<^verbatim>\<open>Object.prototype\<close>, the other
  replaces the prototype of the object at \<open>a\<close>.
\<close>

lemma prototype_examples:
  "setNestedValue [] ''__proto__.__proto__.x'' v = Inl TypeError"
  "setNestedValue [] ''__proto__.__proto__'' v = Inl TypeError"
  "setNestedValue [(''a'', JObj [])] ''a.__proto__.x'' v = Inl Unmodelled"
  "setNestedValue [(''a'', JObj [])] ''a.__proto__'' v = Inl Unmodelled"
  by (simp_all add: setNestedValue_def intoPrototype_def)

section \<open>What the flattener skips, and a builder that throws\<close>

lemma digitChar_digit: "d < 10 \<Longrightarrow> isDigit (digitChar d)"
  unfolding digitChar_def isDigit_def by (rule nth_mem) simp

lemma showNat_digits: "list_all isDigit (showNat n)"
proof (induction n rule: showNat.induct)
  case (1 n)
  show ?case
  proof (cases "n < 10")
    case True
    then show ?thesis by (subst showNat.simps) (simp add: digitChar_digit)
  next
    case False
    with 1 show ?thesis by (subst showNat.simps) (simp add: digitChar_digit)
  qed
qed

lemma dollar_not_digit: "\<not> isDigit CHR ''$''"
  by (simp add: isDigit_def)

lemma indexed_no_dollar_key:
  assumes "k \<noteq> []" "hd k = CHR ''$''"
  shows "map_of (indexed i xs) k = None"
proof -
  have hd_all: "P (hd w)" if "list_all P w" "w \<noteq> []" for P and w :: string
    using that by (cases w) auto
  have "k \<noteq> showNat j" for j
  proof
    assume "k = showNat j"
    with showNat_digits [of j] have "list_all isDigit k" by simp
    from hd_all [OF this assms(1)] assms(2) dollar_not_digit show False by simp
  qed
  then show ?thesis by (induction xs arbitrary: i) auto
qed

lemma flattenEntries_filter:
  "flattenEntries es p l st =
     flattenEntries (filter (\<lambda>e. isObjectLike (snd e) \<and> fst e \<noteq> ''$extensions'') es) p l st"
proof (induction es arbitrary: st)
  case Nil
  show ?case by simp
next
  case (Cons e es)
  obtain k v where e: "e = (k, v)" by (cases e) auto
  show ?case
  proof (cases "k = ''$extensions'' \<or> \<not> isObjectLike v")
    case True
    with Cons show ?thesis by (auto simp: e)
  next
    case False
    with Cons show ?thesis by (auto simp: e Let_def split: option.splits)
  qed
qed

lemma flattenEntries_array:
  "flattenEntries ((k, JArr xs) # rest) p l st =
     flattenEntries ((k, JObj (indexed 0 xs)) # rest) p l st"
  by (simp add: Let_def recordGroup_def indexed_no_dollar_key)

lemma mergeRow_no_metadata:
  "getProp child ''$type'' = None \<Longrightarrow> getProp child ''$extensions'' = None \<Longrightarrow>
     mergeRow l q child v found = setLangValue l v (case found of Some r \<Rightarrow> r | None \<Rightarrow> newRow q)"
  by (simp add: mergeRow_def orElse_def Let_def)

lemma recordGroup_no_metadata: "getProp child ''$extensions'' = None \<Longrightarrow> recordGroup q child st = st"
  by (simp add: recordGroup_def)

lemmas figma_eval = buildFigmaJson_def buildFigmaJsonRows_def figmaToken_def asRow_def optJson_def
  setNestedValue_def setProp_def isArrayIndex_def isDigit_def row_def Let_def

text \<open>
  Claim C9. The part of the claim about the flattener holds: a child that is \<^verbatim>\<open>null\<close>,
  a boolean, a number or a string is skipped (\<open>flattenEntries_filter\<close>; an array is an
  object and is traversed under its indices, \<open>flattenEntries_array\<close>), and a leaf or group
  without \<^verbatim>\<open>$type\<close> and \<^verbatim>\<open>$extensions\<close> gets no metadata
  (\<open>mergeRow_no_metadata\<close>, \<open>recordGroup_no_metadata\<close>). The part about throwing does not
  hold of the builders: in \<open>buildFigmaJson\<close> the row \<open>a\<close> without a token type stores
  \<^verbatim>\<open>$type: null\<close>, the row \<^verbatim>\<open>a.$type.x\<close> walks into that \<^verbatim>\<open>null\<close>, and the
  assignment to its property \<open>x\<close> throws a \<^verbatim>\<open>TypeError\<close>. The two rows are also
  what the flattener makes of the document
  \<^verbatim>\<open>{"a": {"$value": "X"}, "a.$type.x": {"$value": "Y"}}\<close>.
\<close>

theorem buildFigmaJson_throws:
  "buildFigmaJson [row ''a'' None (Some ''X'') None, row ''a.$type.x'' None (Some ''Y'') None] [] EN =
     Inl TypeError \<and>
   buildFigmaJsonRows
     (result_rows (flattenJsons JNull
        (JObj [(''a'', JObj [(''$value'', JStr ''X'')]),
               (''a.$type.x'', JObj [(''$value'', JStr ''Y'')])]) JNull)) [] EN =
     Inl TypeError"
  by (simp add: figma_eval flatten_eval)

text \<open>
  Without the second row the call returns, with the token the first row makes; and group
  extensions are placed beside the leaves.
\<close>

lemma buildFigmaJson_examples:
  "buildFigmaJson [row ''a'' None (Some ''X'') None] [] EN =
     Inr (JObj [(''a'', JObj [(''$type'', JNull), (''$value'', JStr ''X'')])])"
  "buildFigmaJson [row ''theme.color'' None (Some ''X'') None]
       [\<lparr> group_path = ''theme'', extensions = JObj [(''note'', JStr ''x'')] \<rparr>] EN =
     Inr (JObj [(''theme'', JObj [(''color'', JObj [(''$type'', JNull), (''$value'', JStr ''X'')]),
                                  (''$extensions'', JObj [(''note'', JStr ''x'')])])])"
  by (simp_all add: figma_eval)

section \<open>Building and flattening again\<close>

subsection \<open>The leaves of a built object\<close>

lemma leafEvents_leafPaths:
  "leafEvents ps prefix =
     map (\<lambda>(segs, lf). (foldl joinPath prefix segs, lf, leafValueOf lf)) (leafPaths ps)"
proof (induction ps prefix rule: leafEvents.induct)
  case (1 pathPrefix)
  show ?case by simp
next
  case (2 k v rest pathPrefix)
  show ?case
  proof (cases "k = ''$extensions'' \<or> \<not> isObjectLike v")
    case True
    with 2 show ?thesis by simp
  next
    case False
    show ?thesis
    proof (cases "getProp v ''$value''")
      case None
      with False 2 show ?thesis by (simp add: split_def comp_def)
    next
      case (Some leafValue)
      with False 2 show ?thesis by (simp add: leafValueOf_def)
    qed
  qed
qed

lemma leafPaths_obj:
  "leafPaths ((k, JObj qs) # rest) =
     (if k = ''$extensions'' then leafPaths rest
      else if ''$value'' \<in> fst ` set qs then ([k], JObj qs) # leafPaths rest
      else map (\<lambda>(segs, lf). (k # segs, lf)) (leafPaths qs) @ leafPaths rest)"
proof (cases "map_of qs ''$value''")
  case None
  then have "''$value'' \<notin> fst ` set qs" by (simp add: map_of_eq_None_iff)
  with None show ?thesis by simp
next
  case (Some x)
  then have "(''$value'', x) \<in> set qs" by (rule map_of_SomeD)
  then have "''$value'' \<in> fst ` set qs" by force
  with Some show ?thesis by simp
qed

lemma leafPaths_append_head: "leafPaths (e # rest) = leafPaths [e] @ leafPaths rest"
proof -
  obtain k v where e: "e = (k, v)" by (cases e) auto
  show ?thesis by (auto simp: e split: option.splits)
qed

lemma set_leafPaths: "set (leafPaths ps) = (\<Union>e \<in> set ps. set (leafPaths [e]))"
proof (induction ps)
  case Nil
  show ?case by simp
next
  case (Cons e ps)
  then show ?case using leafPaths_append_head [of e ps] by simp
qed

lemma leafPaths_hd:
  "(p, lf) \<in> set (leafPaths [(k, v)]) \<Longrightarrow> p \<noteq> [] \<and> hd p = k"
  by (auto split: if_splits option.splits)

declare leafPaths.simps(2) [simp del]

declare leafPaths_obj [simp]

lemma set_setProp_distinct:
  assumes "distinct (map fst cur)"
  shows "set (setProp k v cur) = insert (k, v) {e \<in> set cur. fst e \<noteq> k}"
proof -
  have d: "distinct (map fst (setProp k v cur))" using assms by (rule distinct_setProp)
  have "(a, b) \<in> set (setProp k v cur) \<longleftrightarrow> (a, b) \<in> insert (k, v) {e \<in> set cur. fst e \<noteq> k}" for a b
  proof -
    have "(a, b) \<in> set (setProp k v cur) \<longleftrightarrow> map_of (setProp k v cur) a = Some b"
      using d by simp
    also have "\<dots> \<longleftrightarrow> ((map_of cur)(k \<mapsto> v)) a = Some b" by (simp add: map_of_setProp)
    also have "\<dots> \<longleftrightarrow> (a, b) \<in> insert (k, v) {e \<in> set cur. fst e \<noteq> k}"
      using assms by auto
    finally show ?thesis .
  qed
  then show ?thesis by auto
qed

lemma set_leafPaths_setProp:
  assumes "distinct (map fst cur)"
  shows "set (leafPaths (setProp k v cur)) =
     set (leafPaths [(k, v)]) \<union> {e \<in> set (leafPaths cur). hd (fst e) \<noteq> k}"
proof -
  have "set (leafPaths (setProp k v cur)) =
      set (leafPaths [(k, v)]) \<union> (\<Union>e \<in> {e \<in> set cur. fst e \<noteq> k}. set (leafPaths [e]))"
    by (subst set_leafPaths) (simp add: set_setProp_distinct [OF assms])
  also have "(\<Union>e \<in> {e \<in> set cur. fst e \<noteq> k}. set (leafPaths [e])) =
      {e \<in> set (leafPaths cur). hd (fst e) \<noteq> k}"
    using leafPaths_hd by (subst (2) set_leafPaths) fastforce
  finally show ?thesis .
qed

subsection \<open>Placing a leaf in a well-formed object\<close>

lemma isPrefix_refl: "isPrefix p p"
  by (induction p) auto

lemma isPrefix_single: "isPrefix [k] (k # rest)"
  by simp

lemma wellFormed_distinct: "wellFormed (JObj cur) \<Longrightarrow> distinct (map fst cur)"
  by simp

lemma wellFormed_member:
  assumes "wellFormed (JObj cur)" "(k, v) \<in> set cur"
  shows "\<exists>qs. v = JObj qs \<and> (''$value'' \<in> fst ` set qs \<or> wellFormed (JObj qs))"
proof -
  from assms(1) have "\<forall>e \<in> set cur. case snd e of
      JObj qs \<Rightarrow> ''$value'' \<in> fst ` set qs \<or> wellFormed (snd e) | _ \<Rightarrow> False"
    by (simp add: list_all_iff)
  from bspec [OF this assms(2)] show ?thesis by (cases v) auto
qed

lemma wellFormed_setProp:
  assumes "wellFormed (JObj cur)" "''$value'' \<in> fst ` set qs \<or> wellFormed (JObj qs)"
  shows "wellFormed (JObj (setProp k (JObj qs) cur))"
proof -
  have d: "distinct (map fst (setProp k (JObj qs) cur))"
    using assms(1) by (simp add: distinct_setProp)
  have "case snd e of JObj qs \<Rightarrow> ''$value'' \<in> fst ` set qs \<or> wellFormed (snd e) | _ \<Rightarrow> False"
    if "e \<in> set (setProp k (JObj qs) cur)" for e
  proof (cases "e = (k, JObj qs)")
    case True
    with assms(2) show ?thesis by simp
  next
    case False
    with that set_setProp [of k "JObj qs" cur] have "e \<in> set cur" by auto
    with assms(1) show ?thesis by (simp add: list_all_iff)
  qed
  with d show ?thesis by (simp add: list_all_iff)
qed

lemma leafPaths_leaf:
  "k \<noteq> ''$extensions'' \<Longrightarrow> ''$value'' \<in> fst ` set qs \<Longrightarrow>
     set (leafPaths [(k, JObj qs)]) = {([k], JObj qs)}"
  by simp

lemma leafPaths_group:
  "k \<noteq> ''$extensions'' \<Longrightarrow> ''$value'' \<notin> fst ` set qs \<Longrightarrow>
     set (leafPaths [(k, JObj qs)]) = (\<lambda>e. (k # fst e, snd e)) ` set (leafPaths qs)"
  by (auto simp: split_def)

lemma leafPaths_key:
  "(p, lf) \<in> set (leafPaths cur) \<Longrightarrow> p \<noteq> [] \<and> hd p \<in> fst ` set cur"
proof -
  assume "(p, lf) \<in> set (leafPaths cur)"
  then obtain e where e: "e \<in> set cur" "(p, lf) \<in> set (leafPaths [e])"
    by (subst (asm) set_leafPaths) auto
  obtain k v where kv: "e = (k, v)" by (cases e) auto
  with e leafPaths_hd [of p lf k v] show ?thesis by force
qed

lemma leafPaths_at_key:
  assumes "distinct (map fst cur)" "(k, v) \<in> set cur"
  shows "{e \<in> set (leafPaths cur). hd (fst e) = k} = set (leafPaths [(k, v)])"
proof (intro set_eqI iffI)
  fix x assume "x \<in> {e \<in> set (leafPaths cur). hd (fst e) = k}"
  then have x: "x \<in> set (leafPaths cur)" "hd (fst x) = k" by auto
  then obtain e where e: "e \<in> set cur" "x \<in> set (leafPaths [e])"
    by (subst (asm) set_leafPaths) auto
  obtain k' v' where kv: "e = (k', v')" by (cases e) auto
  with e leafPaths_hd [of "fst x" "snd x" k' v'] x have "k' = k" by simp
  with assms e kv have "v' = v" by (metis eq_key_imp_eq_value)
  with e kv \<open>k' = k\<close> show "x \<in> set (leafPaths [(k, v)])" by simp
next
  fix x assume x: "x \<in> set (leafPaths [(k, v)])"
  with assms(2) have "x \<in> set (leafPaths cur)" by (subst set_leafPaths) auto
  moreover from x leafPaths_hd [of "fst x" "snd x" k v] have "hd (fst x) = k" by simp
  ultimately show "x \<in> {e \<in> set (leafPaths cur). hd (fst e) = k}" by simp
qed

lemma leafPaths_split_key:
  "set (leafPaths cur) =
     {e \<in> set (leafPaths cur). hd (fst e) = k} \<union> {e \<in> set (leafPaths cur). hd (fst e) \<noteq> k}"
  by auto

lemma walk_wellFormed:
  assumes "wellFormed (JObj cur)"
    and "''$value'' \<in> fst ` set lq"
    and "''$extensions'' \<notin> set (segs @ [lastSeg])"
    and "''$value'' \<notin> set (tl (segs @ [lastSeg]))"
    and "''__proto__'' \<notin> set (segs @ [lastSeg])"
    and "\<forall>e \<in> set (leafPaths cur).
           \<not> isPrefix (fst e) (segs @ [lastSeg]) \<and> \<not> isPrefix (segs @ [lastSeg]) (fst e)"
  shows "\<exists>cur'. walk segs lastSeg (JObj lq) cur = Inr cur' \<and> wellFormed (JObj cur') \<and>
           set (leafPaths cur') = insert (segs @ [lastSeg], JObj lq) (set (leafPaths cur)) \<and>
           fst ` set cur' = insert (hd (segs @ [lastSeg])) (fst ` set cur)"
  using assms
proof (induction segs arbitrary: cur)
  case Nil
  let ?cur' = "setProp lastSeg (JObj lq) cur"
  have d: "distinct (map fst cur)" using Nil.prems(1) by simp
  have ne: "lastSeg \<noteq> ''$extensions''" using Nil.prems(3) by auto
  have np: "lastSeg \<noteq> ''__proto__''" using Nil.prems(5) by auto
  have keep: "{e \<in> set (leafPaths cur). hd (fst e) \<noteq> lastSeg} = set (leafPaths cur)"
  proof -
    have "hd (fst e) \<noteq> lastSeg" if e: "e \<in> set (leafPaths cur)" for e
    proof
      assume h: "hd (fst e) = lastSeg"
      from e leafPaths_key [of "fst e" "snd e" cur] have "fst e \<noteq> []" by simp
      with h have "isPrefix [lastSeg] (fst e)" by (cases "fst e") auto
      with Nil.prems(6) e show False by auto
    qed
    then show ?thesis by auto
  qed
  have "set (leafPaths ?cur') = insert ([lastSeg], JObj lq) (set (leafPaths cur))"
    using set_leafPaths_setProp [OF d, of lastSeg "JObj lq"]
      leafPaths_leaf [OF ne Nil.prems(2)] keep by simp
  moreover have "wellFormed (JObj ?cur')"
    using Nil.prems(1,2) by (intro wellFormed_setProp) simp_all
  ultimately show ?case using np by (simp add: keys_setProp)
next
  case (Cons seg segs)
  let ?path' = "segs @ [lastSeg]"
  have d: "distinct (map fst cur)" using Cons.prems(1) by simp
  have ne: "seg \<noteq> ''$extensions''" and ne': "''$extensions'' \<notin> set ?path'"
    using Cons.prems(3) by auto
  have np: "seg \<noteq> ''__proto__''" and np': "''__proto__'' \<notin> set ?path'"
    using Cons.prems(5) by auto
  have nv': "''$value'' \<notin> set (tl ?path')"
  proof
    assume "''$value'' \<in> set (tl ?path')"
    then have "''$value'' \<in> set ?path'" by (rule list.set_sel(2) [rotated]) simp
    with Cons.prems(4) show False by simp
  qed
  have hv: "hd ?path' \<noteq> ''$value''" using Cons.prems(4) by (cases segs) auto
  have enter: "\<exists>cur'. (case walk segs lastSeg (JObj lq) child of Inl e \<Rightarrow> Inl e
            | Inr child' \<Rightarrow> Inr (setProp seg (JObj child') cur)) = Inr cur' \<and>
          wellFormed (JObj cur') \<and>
          set (leafPaths cur') = insert (seg # ?path', JObj lq)
            ((\<lambda>e. (seg # fst e, snd e)) ` set (leafPaths child) \<union>
              {e \<in> set (leafPaths cur). hd (fst e) \<noteq> seg}) \<and>
          fst ` set cur' = insert seg (fst ` set cur)"
    if wf: "wellFormed (JObj child)" and nov: "''$value'' \<notin> fst ` set child"
      and free: "\<forall>e \<in> set (leafPaths child). \<not> isPrefix (fst e) ?path' \<and> \<not> isPrefix ?path' (fst e)"
    for child
  proof -
    from Cons.IH [OF wf Cons.prems(2) ne' nv' np' free] obtain child' where
      c: "walk segs lastSeg (JObj lq) child = Inr child'" "wellFormed (JObj child')"
        "set (leafPaths child') = insert (?path', JObj lq) (set (leafPaths child))"
        "fst ` set child' = insert (hd ?path') (fst ` set child)"
      by blast
    from c(4) nov hv have nov': "''$value'' \<notin> fst ` set child'" by auto
    have "set (leafPaths (setProp seg (JObj child') cur)) =
        (\<lambda>e. (seg # fst e, snd e)) ` set (leafPaths child') \<union>
          {e \<in> set (leafPaths cur). hd (fst e) \<noteq> seg}"
      using set_leafPaths_setProp [OF d, of seg "JObj child'"] leafPaths_group [OF ne nov'] by simp
    moreover have "wellFormed (JObj (setProp seg (JObj child') cur))"
      using Cons.prems(1) c(2) by (intro wellFormed_setProp) simp_all
    ultimately show ?thesis using c(1,3) by (simp add: keys_setProp)
  qed
  show ?case
  proof (cases "map_of cur seg")
    case None
    then have nk: "seg \<notin> fst ` set cur" by (simp add: map_of_eq_None_iff)
    have keep: "{e \<in> set (leafPaths cur). hd (fst e) \<noteq> seg} = set (leafPaths cur)"
      using leafPaths_key [of _ _ cur] nk by fastforce
    from enter [of "[]"] None keep np show ?thesis by simp
  next
    case (Some held)
    then have mem: "(seg, held) \<in> set cur" by (rule map_of_SomeD)
    from wellFormed_member [OF Cons.prems(1) mem] obtain qs where
      held: "held = JObj qs" and kind: "''$value'' \<in> fst ` set qs \<or> wellFormed (JObj qs)"
      by blast
    have at: "{e \<in> set (leafPaths cur). hd (fst e) = seg} = set (leafPaths [(seg, JObj qs)])"
      using leafPaths_at_key [OF d mem] held by simp
    show ?thesis
    proof (cases "''$value'' \<in> fst ` set qs")
      case True
      with at ne have "([seg], JObj qs) \<in> set (leafPaths cur)" by auto
      with Cons.prems(6) show ?thesis by auto
    next
      case False
      with kind have wf: "wellFormed (JObj qs)" by simp
      have grp: "{e \<in> set (leafPaths cur). hd (fst e) = seg} =
          (\<lambda>e. (seg # fst e, snd e)) ` set (leafPaths qs)"
        using at leafPaths_group [OF ne False] by simp
      have free: "\<forall>e \<in> set (leafPaths qs). \<not> isPrefix (fst e) ?path' \<and> \<not> isPrefix ?path' (fst e)"
      proof
        fix e assume "e \<in> set (leafPaths qs)"
        with grp have "(seg # fst e, snd e) \<in> set (leafPaths cur)" by blast
        with Cons.prems(6) show "\<not> isPrefix (fst e) ?path' \<and> \<not> isPrefix ?path' (fst e)"
          by fastforce
      qed
      from enter [OF wf False free] grp leafPaths_split_key [of cur seg] Some held
      show ?thesis by auto
    qed
  qed
qed

subsection \<open>The subtrees that the rows build\<close>

lemma langKey_inject: "(langKey l = langKey l') = (l = l')"
  by (cases l; cases l') simp_all

lemma langKey_cases: "langKey l \<in> {''Translations/AZ'', ''Translations/EN'', ''Translations/RU''}"
  by (cases l) simp_all

lemma leafToken_leaf: "\<exists>lq. leafToken v ty = JObj lq \<and> ''$value'' \<in> fst ` set lq"
  by (simp add: leafToken_def)

lemma placeValue_built:
  assumes b: "built result S"
    and good: "val \<noteq> JNull \<longrightarrow> ''$extensions'' \<notin> set (splitDot path) \<and>
      ''$value'' \<notin> set (tl (splitDot path)) \<and> ''__proto__'' \<notin> set (splitDot path)"
    and free: "val \<noteq> JNull \<longrightarrow>
      (\<forall>e \<in> S l. \<not> isPrefix (fst e) (splitDot path) \<and> \<not> isPrefix (splitDot path) (fst e))"
  shows "\<exists>r. placeValue (langKey l) val path ty result = Inr r \<and>
           built r (S(l := S l \<union> (if val = JNull then {} else {(splitDot path, leafToken val ty)})))"
proof (cases "val = JNull")
  case True
  with b show ?thesis by (simp add: placeValue_def)
next
  case False
  let ?segs = "splitDot path"
  from good False have ext: "''$extensions'' \<notin> set (splitDot path)"
    and nov: "''$value'' \<notin> set (tl (splitDot path))"
    and np: "''__proto__'' \<notin> set (splitDot path)" by simp_all
  have segs: "butlast ?segs @ [last ?segs] = ?segs" using splitDot_nonempty by simp
  from b obtain sub where
    sub: "map_of result (langKey l) = Some (JObj sub)" "wellFormed (JObj sub)" "set (leafPaths sub) = S l"
    by (auto simp: built_def)
  obtain lq where lq: "leafToken val ty = JObj lq" "''$value'' \<in> fst ` set lq"
    using leafToken_leaf by blast
  from free False sub(3) have
    fr: "\<forall>e \<in> set (leafPaths sub). \<not> isPrefix (fst e) (butlast ?segs @ [last ?segs]) \<and>
           \<not> isPrefix (butlast ?segs @ [last ?segs]) (fst e)"
    by (simp add: segs)
  from walk_wellFormed [OF sub(2) lq(2) _ _ _ fr] ext nov np obtain sub' where
    w: "walk (butlast ?segs) (last ?segs) (JObj lq) sub = Inr sub'" "wellFormed (JObj sub')"
      "set (leafPaths sub') = insert (?segs, JObj lq) (set (leafPaths sub))"
    by (auto simp: segs)
  let ?r = "AList.update (langKey l) (JObj sub') result"
  have pv: "placeValue (langKey l) val path ty result = Inr ?r"
    using False sub(1) w(1) lq(1) by (simp add: placeValue_def setNestedValue_def Let_def)
  have shape: "topShape ?r" using placeValue_shape [OF pv] b by (simp add: built_def)
  have "\<exists>s. map_of ?r (langKey l') = Some (JObj s) \<and> wellFormed (JObj s) \<and>
          set (leafPaths s) = (S(l := S l \<union> {(?segs, leafToken val ty)})) l'" for l'
  proof (cases "l' = l")
    case True
    with w sub(3) lq(1) show ?thesis by (simp add: update_conv')
  next
    case False
    with b show ?thesis by (simp add: built_def update_conv' langKey_inject)
  qed
  with shape pv False show ?thesis by (simp add: built_def)
qed

lemma placed_free:
  assumes "\<not> clash t t'" "\<not> clash t' t" "langValue l t \<noteq> JNull" "e \<in> placed l t'"
  shows "\<not> isPrefix (fst e) (splitDot (key_path t)) \<and>
         \<not> isPrefix (splitDot (key_path t)) (fst e)"
proof -
  from assms(4) have v': "langValue l t' \<noteq> JNull" and e: "fst e = splitDot (key_path t')"
    by (auto simp: placed_def split: if_splits)
  from assms(1) have "\<not> (langValue l t \<noteq> JNull \<and> langValue l t' \<noteq> JNull \<and>
      isPrefix (splitDot (key_path t)) (splitDot (key_path t')))"
    unfolding clash_def by blast
  moreover from assms(2) have "\<not> (langValue l t' \<noteq> JNull \<and> langValue l t \<noteq> JNull \<and>
      isPrefix (splitDot (key_path t')) (splitDot (key_path t)))"
    unfolding clash_def by blast
  ultimately show ?thesis using assms(3) v' e by simp
qed

lemma goodPath_segments:
  "goodPath p \<Longrightarrow> ''$extensions'' \<notin> set (splitDot p) \<and> ''$value'' \<notin> set (tl (splitDot p)) \<and>
     ''__proto__'' \<notin> set (splitDot p)"
  by (simp add: goodPath_def)

lemma buildRows_built:
  assumes "built result (\<lambda>l. placedAll l done)" "goodRows (done @ ts)"
    "distinct (map key_path (done @ ts))"
  shows "\<exists>r. buildRows ts result = Inr r \<and> built r (\<lambda>l. placedAll l (done @ ts))"
  using assms
proof (induction ts arbitrary: result "done")
  case Nil
  then show ?case by simp
next
  case (Cons t ts)
  let ?p = "key_path t"
  let ?ty = "rewriteJsonType (token_type t)"
  let ?S0 = "\<lambda>l. placedAll l done"
  have sg: "langValue l t \<noteq> JNull \<longrightarrow> ''$extensions'' \<notin> set (splitDot ?p) \<and>
      ''$value'' \<notin> set (tl (splitDot ?p)) \<and> ''__proto__'' \<notin> set (splitDot ?p)" for l
  proof
    assume "langValue l t \<noteq> JNull"
    then have "hasValue t" by (cases l) (simp_all add: hasValue_def)
    with Cons.prems(2) have "goodPath ?p" by (simp add: goodRows_def)
    then show "''$extensions'' \<notin> set (splitDot ?p) \<and>
      ''$value'' \<notin> set (tl (splitDot ?p)) \<and> ''__proto__'' \<notin> set (splitDot ?p)"
      by (rule goodPath_segments)
  qed
  have other: "\<not> clash t t' \<and> \<not> clash t' t" if "t' \<in> set done" for t'
  proof -
    from Cons.prems(3) have "key_path t \<notin> key_path ` set done" by simp
    moreover from that have "key_path t' \<in> key_path ` set done" by (rule imageI)
    ultimately have ne: "key_path t' \<noteq> key_path t" by metis
    from Cons.prems(2) that have "\<forall>u \<in> set (done @ t # ts). \<forall>u' \<in> set (done @ t # ts).
        key_path u \<noteq> key_path u' \<longrightarrow> \<not> clash u u'" by (simp add: goodRows_def)
    with that ne show ?thesis by simp
  qed
  have free: "langValue l t \<noteq> JNull \<longrightarrow>
      (\<forall>e \<in> placedAll l done. \<not> isPrefix (fst e) (splitDot ?p) \<and> \<not> isPrefix (splitDot ?p) (fst e))" for l
  proof (intro impI ballI)
    fix e assume v: "langValue l t \<noteq> JNull" and "e \<in> placedAll l done"
    then obtain t' where t': "t' \<in> set done" "e \<in> placed l t'" by (auto simp: placedAll_def)
    from other [OF t'(1)] have "\<not> clash t t'" "\<not> clash t' t" by simp_all
    from placed_free [OF this v t'(2)]
    show "\<not> isPrefix (fst e) (splitDot ?p) \<and> \<not> isPrefix (splitDot ?p) (fst e)" .
  qed
  let ?S1 = "?S0(AZ := ?S0 AZ \<union> (if langValue AZ t = JNull then {} else {(splitDot ?p, leafToken (langValue AZ t) ?ty)}))"
  let ?S2 = "?S1(EN := ?S1 EN \<union> (if langValue EN t = JNull then {} else {(splitDot ?p, leafToken (langValue EN t) ?ty)}))"
  let ?S3 = "?S2(RU := ?S2 RU \<union> (if langValue RU t = JNull then {} else {(splitDot ?p, leafToken (langValue RU t) ?ty)}))"
  from placeValue_built [OF Cons.prems(1), of "langValue AZ t" ?p AZ ?ty] sg [of AZ] free [of AZ]
  obtain r1 where r1: "placeValue (langKey AZ) (langValue AZ t) ?p ?ty result = Inr r1" "built r1 ?S1"
    by auto
  from placeValue_built [OF r1(2), of "langValue EN t" ?p EN ?ty] sg [of EN] free [of EN]
  obtain r2 where r2: "placeValue (langKey EN) (langValue EN t) ?p ?ty r1 = Inr r2" "built r2 ?S2"
    by auto
  from placeValue_built [OF r2(2), of "langValue RU t" ?p RU ?ty] sg [of RU] free [of RU]
  obtain r3 where r3: "placeValue (langKey RU) (langValue RU t) ?p ?ty r2 = Inr r3" "built r3 ?S3"
    by auto
  have "?S3 = (\<lambda>l. placedAll l (done @ [t]))"
  proof
    fix l show "?S3 l = placedAll l (done @ [t])"
      by (cases l) (auto simp: placedAll_def placed_def split: if_splits)
  qed
  with r3(2) have b3: "built r3 (\<lambda>l. placedAll l (done @ [t]))" by simp
  from Cons.IH [OF b3] Cons.prems(2,3) obtain r where
    "buildRows ts r3 = Inr r" "built r (\<lambda>l. placedAll l ((done @ [t]) @ ts))" by auto
  with r1(1) r2(1) r3(1) show ?case by (simp add: Let_def)
qed

lemma buildDeveloperJsonRows_built:
  assumes "goodRows ts" "distinct (map key_path ts)"
  shows "\<exists>r. buildDeveloperJsonRows ts = Inr (JObj r) \<and> built r (\<lambda>l. placedAll l ts)"
proof -
  have "built [(''Translations/AZ'', JObj []), (''Translations/EN'', JObj []),
      (''Translations/RU'', JObj [])] (\<lambda>l. placedAll l [])"
    unfolding built_def
  proof (intro conjI allI)
    show "topShape [(''Translations/AZ'', JObj []), (''Translations/EN'', JObj []),
      (''Translations/RU'', JObj [])]" by (simp add: topShape_def)
    fix l
    show "\<exists>sub. map_of [(''Translations/AZ'', JObj []), (''Translations/EN'', JObj []),
        (''Translations/RU'', JObj [])] (langKey l) = Some (JObj sub) \<and> wellFormed (JObj sub) \<and>
        set (leafPaths sub) = placedAll l []"
      by (cases l) (simp_all add: placedAll_def)
  qed
  from buildRows_built [OF this, of ts] assms show ?thesis
    by (auto simp: buildDeveloperJsonRows_def)
qed

subsection \<open>The row that the occurrences at a path make\<close>

lemma mergeRow_eq:
  "mergeRow l p child v found =
     (let old = (case found of Some r \<Rightarrow> r | None \<Rightarrow> newRow p) in
      \<lparr> key_path = key_path old,
        az_value = (if l = AZ then v else az_value old),
        en_value = (if l = EN then v else en_value old),
        ru_value = (if l = RU then v else ru_value old),
        token_type = (case leafType child of Some ty \<Rightarrow> ty | None \<Rightarrow> token_type old),
        figma_variable_id =
          (case leafVariableId child of Some vid \<Rightarrow> vid | None \<Rightarrow> figma_variable_id old) \<rparr>)"
  by (cases l)
     (simp_all add: mergeRow_def leafType_def leafVariableId_def orElse_def Let_def
        split: option.splits)

lemma valuesAt_snoc:
  "valuesAt l p (evs @ [(l', q, child, v)]) =
     valuesAt l p evs @ (if l' = l \<and> q = p then [v] else [])"
  by (simp add: valuesAt_def List.map_filter_def)

lemma typesAt_snoc:
  "typesAt p (evs @ [(l, q, child, v)]) =
     typesAt p evs @ (if q = p then (case leafType child of Some ty \<Rightarrow> [ty] | None \<Rightarrow> []) else [])"
  by (simp add: typesAt_def List.map_filter_def split: option.splits)

lemma lastOr_snoc: "lastOr d (xs @ [x]) = x"
  by (simp add: lastOr_def)

lemma rowFrom_empty: "rowFrom p [] = newRow p"
  by (simp add: rowFrom_def newRow_def valuesAt_def typesAt_def variableIdsAt_def
      List.map_filter_def lastOr_def)

lemma map_filter_none: "(\<forall>x \<in> set xs. f x = None) \<Longrightarrow> List.map_filter f xs = []"
  by (induction xs) (auto simp: List.map_filter_simps)

lemma rowFrom_none:
  assumes "\<not> (\<exists>l child v. (l, p, child, v) \<in> set evs)"
  shows "rowFrom p evs = newRow p"
proof -
  have q: "\<forall>x \<in> set evs. fst (snd x) \<noteq> p" using assms by force
  have "valuesAt l p evs = []" for l
    unfolding valuesAt_def using q by (intro map_filter_none) auto
  moreover have "typesAt p evs = []"
    unfolding typesAt_def using q by (intro map_filter_none) auto
  moreover have "variableIdsAt p evs = []"
    unfolding variableIdsAt_def using q by (intro map_filter_none) auto
  ultimately show ?thesis by (simp add: rowFrom_def newRow_def lastOr_def)
qed

lemma rowFrom_skip: "q \<noteq> p \<Longrightarrow> rowFrom p (evs @ [(l, q, child, v)]) = rowFrom p evs"
  by (simp add: rowFrom_def valuesAt_snoc typesAt_snoc variableIdsAt_snoc)

lemma rowFrom_snoc:
  "rowFrom p (evs @ [(l, p, child, v)]) = mergeRow l p child v (Some (rowFrom p evs))"
  by (cases l)
     (simp_all add: mergeRow_eq rowFrom_def valuesAt_snoc typesAt_snoc variableIdsAt_snoc
        lastOr_snoc split: option.splits)

lemma rowAt_rowFrom:
  "rowAt p None evs =
     (if \<exists>l child v. (l, p, child, v) \<in> set evs then Some (rowFrom p evs) else None)"
proof (induction evs rule: rev_induct)
  case Nil
  show ?case by (simp add: rowAt_def)
next
  case (snoc ev evs)
  obtain l q child v where ev: "ev = (l, q, child, v)" by (cases ev) auto
  show ?case
  proof (cases "q = p")
    case False
    with snoc show ?thesis by (auto simp: ev rowAt_snoc rowFrom_skip)
  next
    case True
    show ?thesis
    proof (cases "\<exists>l child v. (l, p, child, v) \<in> set evs")
      case True
      with snoc \<open>q = p\<close> show ?thesis by (auto simp: ev rowAt_snoc rowFrom_snoc)
    next
      case False
      then have "rowFrom p evs = newRow p" by (rule rowFrom_none)
      with False snoc \<open>q = p\<close> show ?thesis
        by (auto simp: ev rowAt_snoc rowFrom_snoc mergeRow_eq)
    qed
  qed
qed

lemma flattenJsons_rows_iff:
  "r \<in> set (result_rows (flattenJsons az en ru)) \<longleftrightarrow>
     (\<exists>p. rowAt p None (occurrences az en ru) = Some r)"
proof
  assume "r \<in> set (result_rows (flattenJsons az en ru))"
  then show "\<exists>p. rowAt p None (occurrences az en ru) = Some r"
    using flattenJsons_row_lookup by blast
next
  assume "\<exists>p. rowAt p None (occurrences az en ru) = Some r"
  then obtain p where "map_of (foldl applyEvent [] (occurrences az en ru)) p = Some r"
    by (auto simp: map_of_foldl_applyEvent)
  then have "(p, r) \<in> set (foldl applyEvent [] (occurrences az en ru))" by (rule map_of_SomeD)
  then show "r \<in> set (result_rows (flattenJsons az en ru))"
    by (force simp: flattenJsons_rows)
qed

lemma flattenJsons_rows_set:
  "set (result_rows (flattenJsons az en ru)) =
     {rowFrom p (occurrences az en ru) | p. \<exists>l child v. (l, p, child, v) \<in> set (occurrences az en ru)}"
proof (intro set_eqI iffI)
  fix r
  assume "r \<in> set (result_rows (flattenJsons az en ru))"
  then obtain p where "rowAt p None (occurrences az en ru) = Some r"
    by (auto simp: flattenJsons_rows_iff)
  then show "r \<in> {rowFrom p (occurrences az en ru) | p. \<exists>l child v. (l, p, child, v) \<in> set (occurrences az en ru)}"
    by (auto simp: rowAt_rowFrom split: if_splits)
next
  fix r
  assume "r \<in> {rowFrom p (occurrences az en ru) | p. \<exists>l child v. (l, p, child, v) \<in> set (occurrences az en ru)}"
  then obtain p where "r = rowFrom p (occurrences az en ru)"
    and "\<exists>l child v. (l, p, child, v) \<in> set (occurrences az en ru)" by blast
  then have "rowAt p None (occurrences az en ru) = Some r" by (simp add: rowAt_rowFrom)
  then show "r \<in> set (result_rows (flattenJsons az en ru))"
    unfolding flattenJsons_rows_iff by blast
qed

lemma flattenJsons_distinct: "distinct (map key_path (result_rows (flattenJsons az en ru)))"
proof -
  let ?E = "occurrences az en ru"
  let ?rs = "foldl applyEvent [] ?E"
  have d: "distinct (map fst ?rs)" by (rule distinct_foldl_applyEvent) simp
  have "key_path (snd e) = fst e" if "e \<in> set ?rs" for e
  proof -
    obtain p r where e: "e = (p, r)" by (cases e) auto
    with that d have "map_of ?rs p = Some r" by simp
    then have "rowAt p None ?E = Some r" by (simp add: map_of_foldl_applyEvent)
    then have "r = rowFrom p ?E" by (simp add: rowAt_rowFrom split: if_splits)
    then show ?thesis by (simp add: e rowFrom_def)
  qed
  then have eq: "map (key_path \<circ> snd) ?rs = map fst ?rs" by (intro map_cong) simp_all
  have "distinct (map (key_path \<circ> snd) ?rs)" unfolding eq by (rule d)
  then show ?thesis unfolding flattenJsons_rows map_map .
qed

subsection \<open>The occurrences of the second flattening\<close>

lemma foldl_joinPath:
  "pre \<noteq> [] \<Longrightarrow> foldl joinPath pre ws = pre @ concat (map (\<lambda>w. ''.'' @ w) ws)"
  by (induction ws arbitrary: pre) (simp_all add: joinPath_def)

lemma joinDot_concat: "joinDot (w # ws) = w @ concat (map (\<lambda>w. ''.'' @ w) ws)"
  by (induction ws arbitrary: w) simp_all

lemma pathOf_joinDot: "w \<noteq> [] \<or> ws = [] \<Longrightarrow> pathOf (w # ws) = joinDot (w # ws)"
  by (cases "w = []") (simp_all add: pathOf_def joinPath_def foldl_joinPath joinDot_concat)

lemma hd_splitDot: "p \<noteq> [] \<Longrightarrow> hd p \<noteq> CHR ''.'' \<Longrightarrow> hd (splitDot p) \<noteq> []"
  by (cases p) (auto split: list.splits)

lemma pathOf_splitDot:
  assumes "\<not> (p \<noteq> [] \<and> hd p = CHR ''.'')"
  shows "pathOf (splitDot p) = p"
proof -
  obtain w ws where s: "splitDot p = w # ws"
    using splitDot_nonempty [of p] by (cases "splitDot p") auto
  have "w \<noteq> [] \<or> ws = []"
  proof (cases "p = []")
    case True
    with s show ?thesis by simp
  next
    case False
    with assms hd_splitDot [of p] s show ?thesis by simp
  qed
  then have "pathOf (w # ws) = joinDot (w # ws)" by (rule pathOf_joinDot)
  with s joinDot_splitDot [of p] show ?thesis by simp
qed

lemma set_map_filter: "set (List.map_filter f xs) = {y. \<exists>x \<in> set xs. f x = Some y}"
  by (induction xs) (auto simp: List.map_filter_simps split: option.splits)

lemma lastOr_const: "xs \<noteq> [] \<Longrightarrow> set xs \<subseteq> {c} \<Longrightarrow> lastOr d xs = c"
proof -
  assume ne: "xs \<noteq> []" and sub: "set xs \<subseteq> {c}"
  from ne have "last xs \<in> set xs" by (rule last_in_set)
  with sub have "last xs = c" by blast
  with ne show ?thesis by (simp add: lastOr_def)
qed

lemma lastOr_one: "set xs = {c} \<Longrightarrow> lastOr d xs = c"
  by (rule lastOr_const) auto

lemma lastOr_none: "set xs = {} \<Longrightarrow> lastOr d xs = d"
  by (simp add: lastOr_def)

lemma leafType_leafToken:
  "leafType (leafToken v ty) = (if truthy ty then Some ty else None)"
  by (simp add: leafType_def leafToken_def)

lemma leafVariableId_leafToken: "leafVariableId (leafToken v ty) = None"
  by (simp add: leafVariableId_def leafToken_def)

lemma leafValueOf_leafToken: "leafValueOf (leafToken v ty) = v"
  by (simp add: leafValueOf_def leafToken_def)

lemma treeEvents_subtree:
  "set (treeEvents l (JObj sub)) =
     (\<lambda>(segs, lf). (l, pathOf segs, lf, leafValueOf lf)) ` set (leafPaths sub)"
proof -
  have "treeEvents l (JObj sub) = map (Pair l) (leafEvents sub [])"
    by (simp add: treeEvents_def)
  then show ?thesis
    by (force simp: leafEvents_leafPaths pathOf_def image_iff)
qed

lemma subtreeOf_built:
  assumes "built r S"
  shows "\<exists>sub. subtreeOf (JObj r) (langKey l) = JObj sub \<and> set (leafPaths sub) = S l"
proof -
  from assms obtain sub where "map_of r (langKey l) = Some (JObj sub)" "set (leafPaths sub) = S l"
    unfolding built_def by blast
  then show ?thesis by (auto simp: subtreeOf_def)
qed

text \<open>The occurrences a row list leaves in the developer JSON.\<close>

lemma reflatten_occurrences:
  assumes "built r (\<lambda>l. placedAll l ts)"
  shows "set (occurrences (subtreeOf (JObj r) ''Translations/AZ'')
           (subtreeOf (JObj r) ''Translations/EN'') (subtreeOf (JObj r) ''Translations/RU'')) =
         (\<Union>l. (\<lambda>(segs, lf). (l, pathOf segs, lf, leafValueOf lf)) ` placedAll l ts)"
proof -
  have one: "set (treeEvents l (subtreeOf (JObj r) (langKey l))) =
      (\<lambda>(segs, lf). (l, pathOf segs, lf, leafValueOf lf)) ` placedAll l ts" for l
  proof -
    from subtreeOf_built [OF assms, of l] obtain sub where
      "subtreeOf (JObj r) (langKey l) = JObj sub" "set (leafPaths sub) = placedAll l ts"
      by auto
    then show ?thesis using treeEvents_subtree [of l sub] by simp
  qed
  have "(UNIV :: lang set) = {AZ, EN, RU}"
  proof -
    have "l \<in> {AZ, EN, RU}" for l by (cases l) simp_all
    then show ?thesis by blast
  qed
  then have "(\<Union>l. (\<lambda>(segs, lf). (l, pathOf segs, lf, leafValueOf lf)) ` placedAll l ts) =
      (\<Union>l \<in> {AZ, EN, RU}. (\<lambda>(segs, lf). (l, pathOf segs, lf, leafValueOf lf)) ` placedAll l ts)"
    by simp
  also have "\<dots> = set (treeEvents AZ (subtreeOf (JObj r) (langKey AZ))) \<union>
      set (treeEvents EN (subtreeOf (JObj r) (langKey EN))) \<union>
      set (treeEvents RU (subtreeOf (JObj r) (langKey RU)))"
    unfolding one by blast
  finally show ?thesis by (simp add: occurrences_def Un_assoc)
qed

lemma ex_lang: "(\<exists>l. P l) = (P AZ \<or> P EN \<or> P RU)"
proof
  assume "\<exists>l. P l"
  then obtain l where "P l" ..
  then show "P AZ \<or> P EN \<or> P RU" by (cases l) simp_all
qed auto

lemma hasValue_lang: "hasValue t \<longleftrightarrow> (\<exists>l. langValue l t \<noteq> JNull)"
proof -
  have "(\<exists>l. langValue l t \<noteq> JNull) =
      (langValue AZ t \<noteq> JNull \<or> langValue EN t \<noteq> JNull \<or> langValue RU t \<noteq> JNull)"
    by (rule ex_lang)
  then show ?thesis by (simp add: hasValue_def)
qed

lemma event_of_rows:
  assumes "\<forall>t \<in> set ts. hasValue t \<longrightarrow> goodPath (key_path t)"
  shows "(l, p, child, v) \<in> (\<Union>l. (\<lambda>(segs, lf). (l, pathOf segs, lf, leafValueOf lf)) ` placedAll l ts)
     \<longleftrightarrow> (\<exists>t \<in> set ts. langValue l t \<noteq> JNull \<and> p = key_path t \<and>
            child = leafToken (langValue l t) (rewriteJsonType (token_type t)) \<and> v = langValue l t)"
proof
  assume "(l, p, child, v) \<in> (\<Union>l. (\<lambda>(segs, lf). (l, pathOf segs, lf, leafValueOf lf)) ` placedAll l ts)"
  then obtain segs lf where e: "(segs, lf) \<in> placedAll l ts" "p = pathOf segs" "child = lf"
    "v = leafValueOf lf" by auto
  from e(1) obtain t where t: "t \<in> set ts" "langValue l t \<noteq> JNull"
    "segs = splitDot (key_path t)"
    "lf = leafToken (langValue l t) (rewriteJsonType (token_type t))"
    by (auto simp: placedAll_def placed_def split: if_splits)
  from t(2) have "hasValue t" unfolding hasValue_lang by blast
  with assms t(1) have "pathOf (splitDot (key_path t)) = key_path t"
    by (intro pathOf_splitDot) (simp add: goodPath_def)
  with e t show "\<exists>t \<in> set ts. langValue l t \<noteq> JNull \<and> p = key_path t \<and>
            child = leafToken (langValue l t) (rewriteJsonType (token_type t)) \<and> v = langValue l t"
    by (auto simp: leafValueOf_leafToken)
next
  assume "\<exists>t \<in> set ts. langValue l t \<noteq> JNull \<and> p = key_path t \<and>
            child = leafToken (langValue l t) (rewriteJsonType (token_type t)) \<and> v = langValue l t"
  then obtain t where t: "t \<in> set ts" "langValue l t \<noteq> JNull" "p = key_path t"
    "child = leafToken (langValue l t) (rewriteJsonType (token_type t))" "v = langValue l t" by blast
  from t(2) have "hasValue t" unfolding hasValue_lang by blast
  with assms t(1) have "pathOf (splitDot (key_path t)) = key_path t"
    by (intro pathOf_splitDot) (simp add: goodPath_def)
  moreover have "(splitDot (key_path t),
      leafToken (langValue l t) (rewriteJsonType (token_type t))) \<in> placed l t"
    using t(2) by (simp add: placed_def)
  with t(1) have "(splitDot (key_path t),
      leafToken (langValue l t) (rewriteJsonType (token_type t))) \<in> placedAll l ts"
    unfolding placedAll_def by blast
  ultimately show "(l, p, child, v) \<in> (\<Union>l. (\<lambda>(segs, lf). (l, pathOf segs, lf, leafValueOf lf)) ` placedAll l ts)"
    using t by (force simp: leafValueOf_leafToken)
qed

subsection \<open>The rows of the second flattening\<close>

lemma rowFrom_rows:
  assumes E: "\<And>l p child v. (l, p, child, v) \<in> set E \<longleftrightarrow>
      (\<exists>t \<in> set ts. langValue l t \<noteq> JNull \<and> p = key_path t \<and>
         child = leafToken (langValue l t) (rewriteJsonType (token_type t)) \<and> v = langValue l t)"
    and d: "distinct (map key_path ts)"
    and t: "t \<in> set ts"
    and c: "hasValue t"
    and ty: "token_type t = JNull \<or> truthy (token_type t)"
  shows "rowFrom (key_path t) E = expectedRow t"
proof -
  let ?p = "key_path t"
  let ?ty = "rewriteJsonType (token_type t)"
  have uniq: "t' = t" if "t' \<in> set ts" "key_path t' = ?p" for t'
    using d t that by (auto simp: distinct_map dest: inj_onD)
  have at: "(l, ?p, child, v) \<in> set E \<longleftrightarrow>
      (langValue l t \<noteq> JNull \<and> child = leafToken (langValue l t) ?ty \<and> v = langValue l t)"
    for l child v
  proof
    assume "(l, ?p, child, v) \<in> set E"
    then obtain t' where t': "t' \<in> set ts" "langValue l t' \<noteq> JNull" "?p = key_path t'"
      "child = leafToken (langValue l t') (rewriteJsonType (token_type t'))" "v = langValue l t'"
      unfolding E by blast
    from uniq [OF t'(1)] t'(3) have "t' = t" by simp
    with t' show "langValue l t \<noteq> JNull \<and> child = leafToken (langValue l t) ?ty \<and> v = langValue l t"
      by simp
  next
    assume "langValue l t \<noteq> JNull \<and> child = leafToken (langValue l t) ?ty \<and> v = langValue l t"
    with t show "(l, ?p, child, v) \<in> set E" unfolding E by blast
  qed
  have vals: "lastOr JNull (valuesAt l ?p E) = langValue l t" for l
  proof (cases "langValue l t = JNull")
    case True
    have "set (valuesAt l ?p E) = {}"
      unfolding valuesAt_def set_map_filter using True at by (auto split: if_splits)
    with True show ?thesis by (simp add: lastOr_none)
  next
    case False
    have "(l, ?p, leafToken (langValue l t) ?ty, langValue l t) \<in> set E" using False at by simp
    then have "langValue l t \<in> set (valuesAt l ?p E)"
      unfolding valuesAt_def set_map_filter by force
    moreover have "set (valuesAt l ?p E) \<subseteq> {langValue l t}"
      unfolding valuesAt_def set_map_filter using at by (auto split: if_splits)
    ultimately have "set (valuesAt l ?p E) = {langValue l t}" by blast
    then show ?thesis by (rule lastOr_one)
  qed
  from c obtain l0 where l0: "langValue l0 t \<noteq> JNull" by (auto simp: hasValue_lang)
  then have ev0: "(l0, ?p, leafToken (langValue l0 t) ?ty, langValue l0 t) \<in> set E"
    using at by simp
  have types: "lastOr JNull (typesAt ?p E) = ?ty"
  proof (cases "truthy ?ty")
    case True
    from ev0 True have "?ty \<in> set (typesAt ?p E)"
      unfolding typesAt_def set_map_filter by (force simp: leafType_leafToken)
    moreover have "set (typesAt ?p E) \<subseteq> {?ty}"
      unfolding typesAt_def set_map_filter using at
      by (auto simp: leafType_leafToken split: if_splits)
    ultimately have "set (typesAt ?p E) = {?ty}" by blast
    then show ?thesis by (rule lastOr_one)
  next
    case False
    with ty have null: "?ty = JNull" by (auto simp: rewriteJsonType_def split: if_splits)
    have "set (typesAt ?p E) = {}"
      unfolding typesAt_def set_map_filter using at False
      by (auto simp: leafType_leafToken split: if_splits)
    with null show ?thesis by (simp add: lastOr_none)
  qed
  have ids: "lastOr JNull (variableIdsAt ?p E) = JNull"
  proof -
    have "set (variableIdsAt ?p E) = {}"
      unfolding variableIdsAt_def set_map_filter using at
      by (auto simp: leafVariableId_leafToken split: if_splits)
    then show ?thesis by (simp add: lastOr_none)
  qed
  show ?thesis
    using vals [of AZ] vals [of EN] vals [of RU] types ids
    by (cases t) (simp add: rowFrom_def expectedRow_def)
qed

lemma reflatten_rows:
  assumes "goodRows ts" "distinct (map key_path ts)"
    and ty: "\<forall>t \<in> set ts. token_type t = JNull \<or> truthy (token_type t)"
  shows "\<exists>tree. buildDeveloperJsonRows ts = Inr tree \<and>
           set (result_rows (reflatten tree)) = expectedRow ` {t \<in> set ts. hasValue t}"
proof -
  from buildDeveloperJsonRows_built [OF assms(1,2)] obtain r where
    r: "buildDeveloperJsonRows ts = Inr (JObj r)" "built r (\<lambda>l. placedAll l ts)" by blast
  let ?E = "occurrences (subtreeOf (JObj r) ''Translations/AZ'')
       (subtreeOf (JObj r) ''Translations/EN'') (subtreeOf (JObj r) ''Translations/RU'')"
  from assms(1) have gp: "\<forall>t \<in> set ts. hasValue t \<longrightarrow> goodPath (key_path t)"
    by (simp add: goodRows_def)
  note d = assms(2)
  have E: "(l, p, child, v) \<in> set ?E \<longleftrightarrow>
      (\<exists>t \<in> set ts. langValue l t \<noteq> JNull \<and> p = key_path t \<and>
         child = leafToken (langValue l t) (rewriteJsonType (token_type t)) \<and> v = langValue l t)"
    for l p child v
    unfolding reflatten_occurrences [OF r(2)] by (rule event_of_rows [OF gp])
  have rows: "set (result_rows (reflatten (JObj r))) =
      {rowFrom p ?E | p. \<exists>l child v. (l, p, child, v) \<in> set ?E}"
    unfolding reflatten_def by (rule flattenJsons_rows_set)
  have "set (result_rows (reflatten (JObj r))) = expectedRow ` {t \<in> set ts. hasValue t}"
  proof (intro set_eqI iffI)
    fix x assume "x \<in> set (result_rows (reflatten (JObj r)))"
    then obtain p l child v where x: "x = rowFrom p ?E" "(l, p, child, v) \<in> set ?E"
      unfolding rows by blast
    from x(2) obtain t where t: "t \<in> set ts" "langValue l t \<noteq> JNull" "p = key_path t"
      unfolding E by blast
    from t(2) have c: "hasValue t" by (auto simp: hasValue_lang)
    from ty t(1) have "token_type t = JNull \<or> truthy (token_type t)" by simp
    from rowFrom_rows [of ?E ts t, OF E d t(1) c this] x(1) t(3) have "x = expectedRow t" by simp
    with t(1) c show "x \<in> expectedRow ` {t \<in> set ts. hasValue t}" by blast
  next
    fix x assume "x \<in> expectedRow ` {t \<in> set ts. hasValue t}"
    then obtain t where t: "t \<in> set ts" "hasValue t" "x = expectedRow t" by blast
    from t(2) obtain l where "langValue l t \<noteq> JNull" by (auto simp: hasValue_lang)
    with t(1) have "(l, key_path t,
        leafToken (langValue l t) (rewriteJsonType (token_type t)), langValue l t) \<in> set ?E"
      unfolding E by blast
    moreover from ty t(1) have "token_type t = JNull \<or> truthy (token_type t)" by simp
    from rowFrom_rows [of ?E ts t, OF E d t(1) t(2) this] t(3)
    have "x = rowFrom (key_path t) ?E" by simp
    ultimately show "x \<in> set (result_rows (reflatten (JObj r)))" unfolding rows by blast
  qed
  with r(1) show ?thesis by blast
qed

subsection \<open>Flatten, build, flatten\<close>

lemma leafType_truthy: "leafType child = Some ty \<Longrightarrow> truthy ty"
  by (auto simp: leafType_def split: option.splits if_splits)

lemma flattenJsons_type:
  assumes "r \<in> set (result_rows (flattenJsons az en ru))"
  shows "token_type r = JNull \<or> truthy (token_type r)"
proof -
  from assms obtain p where r: "r = rowFrom p (occurrences az en ru)"
    unfolding flattenJsons_rows_set by blast
  show ?thesis
  proof (cases "typesAt p (occurrences az en ru) = []")
    case True
    with r show ?thesis by (simp add: rowFrom_def lastOr_def)
  next
    case False
    then have "last (typesAt p (occurrences az en ru)) \<in> set (typesAt p (occurrences az en ru))"
      by (rule last_in_set)
    then have "truthy (last (typesAt p (occurrences az en ru)))"
      unfolding typesAt_def set_map_filter by (auto split: if_splits dest: leafType_truthy)
    with False r show ?thesis by (simp add: rowFrom_def lastOr_def)
  qed
qed

lemma image_filter_set: "f ` {x \<in> set xs. P x} = set (map f (filter P xs))"
  by auto

lemmas roundtrip_eval = roundTrip_def reflatten_def subtreeOf_def buildDeveloperJsonRows_def
  placeValue_def setNestedValue_def leafToken_def rewriteJsonType_def setProp_def isArrayIndex_def
  isDigit_def

text \<open>
  Claim C3, as amended. Take three input trees whose flattened rows are rows the builder
  stores without loss (\<open>goodRows\<close>): the key path of a row that has a value does not
  start with a dot and has no segment named \<^verbatim>\<open>$extensions\<close> or \<^verbatim>\<open>__proto__\<close> or,
  after the first, \<^verbatim>\<open>$value\<close>, and of two rows with a value in the same language the
  segments of one are not a prefix of the segments of the other. Then building the developer
  JSON from the rows returns, and flattening its three subtrees again gives rows with
  distinct key paths, exactly the rows that have a value in some language, each with its
  three values as they were, whatever JSON values they are, with its \<open>token_type\<close>
  \<^verbatim>\<open>"string"\<close> rewritten to \<^verbatim>\<open>"text"\<close> and with \<open>figma_variable_id\<close>
  \<^verbatim>\<open>null\<close>. Rows whose three values are \<^verbatim>\<open>null\<close> do not come back, and no
  variable id does.
\<close>

theorem flatten_build_flatten:
  assumes "goodRows (result_rows (flattenJsons azJson enJson ruJson))"
  shows "\<exists>res. roundTrip azJson enJson ruJson = Inr res \<and>
           distinct (map key_path (result_rows res)) \<and>
           set (result_rows res) =
             expectedRow ` {r \<in> set (result_rows (flattenJsons azJson enJson ruJson)). hasValue r}"
proof -
  let ?rows = "result_rows (flattenJsons azJson enJson ruJson)"
  have "\<forall>r \<in> set ?rows. token_type r = JNull \<or> truthy (token_type r)"
    using flattenJsons_type by blast
  from reflatten_rows [OF assms flattenJsons_distinct this] obtain tree where
    "buildDeveloperJsonRows ?rows = Inr tree"
    "set (result_rows (reflatten tree)) = expectedRow ` {r \<in> set ?rows. hasValue r}" by blast
  moreover have "distinct (map key_path (result_rows (reflatten tree)))"
    unfolding reflatten_def by (rule flattenJsons_distinct)
  ultimately show ?thesis by (simp add: roundTrip_def)
qed

theorem flatten_build_flatten_witness:
  "goodRows (result_rows (flattenJsons
        (JObj [(''a'', JObj [(''$value'', JStr ''X''), (''$type'', JStr ''string'')]),
               (''n'', JObj [(''$value'', JNum 5)]),
               (''g'', JObj [(''b'', JObj [(''$value'', JNull)])])])
        (JObj [(''a'', JObj [(''$value'', JStr ''Y'')])]) JNull)) \<and>
   (\<exists>res. roundTrip
        (JObj [(''a'', JObj [(''$value'', JStr ''X''), (''$type'', JStr ''string'')]),
               (''n'', JObj [(''$value'', JNum 5)]),
               (''g'', JObj [(''b'', JObj [(''$value'', JNull)])])])
        (JObj [(''a'', JObj [(''$value'', JStr ''Y'')])]) JNull = Inr res \<and>
      distinct (map key_path (result_rows res)) \<and>
      set (result_rows res) =
        {\<lparr> key_path = ''a'', az_value = JStr ''X'', en_value = JStr ''Y'', ru_value = JNull,
            token_type = JStr ''text'', figma_variable_id = JNull \<rparr>,
         \<lparr> key_path = ''n'', az_value = JNum 5, en_value = JNull, ru_value = JNull,
            token_type = JNull, figma_variable_id = JNull \<rparr>})"
proof -
  let ?az = "JObj [(''a'', JObj [(''$value'', JStr ''X''), (''$type'', JStr ''string'')]),
               (''n'', JObj [(''$value'', JNum 5)]),
               (''g'', JObj [(''b'', JObj [(''$value'', JNull)])])]"
  let ?en = "JObj [(''a'', JObj [(''$value'', JStr ''Y'')])]"
  have rows: "result_rows (flattenJsons ?az ?en JNull) =
      [\<lparr> key_path = ''a'', az_value = JStr ''X'', en_value = JStr ''Y'', ru_value = JNull,
          token_type = JStr ''string'', figma_variable_id = JNull \<rparr>,
       \<lparr> key_path = ''n'', az_value = JNum 5, en_value = JNull, ru_value = JNull,
          token_type = JNull, figma_variable_id = JNull \<rparr>,
       \<lparr> key_path = ''g.b'', az_value = JNull, en_value = JNull, ru_value = JNull,
          token_type = JNull, figma_variable_id = JNull \<rparr>]"
    by (simp add: flatten_eval)
  have good: "goodRows (result_rows (flattenJsons ?az ?en JNull))"
    unfolding rows by (simp add: goodRows_def goodPath_def clash_def ex_lang hasValue_def)
  have "expectedRow ` {r \<in> set (result_rows (flattenJsons ?az ?en JNull)). hasValue r} =
      {\<lparr> key_path = ''a'', az_value = JStr ''X'', en_value = JStr ''Y'', ru_value = JNull,
          token_type = JStr ''text'', figma_variable_id = JNull \<rparr>,
       \<lparr> key_path = ''n'', az_value = JNum 5, en_value = JNull, ru_value = JNull,
          token_type = JNull, figma_variable_id = JNull \<rparr>}"
    unfolding rows image_filter_set
    by (simp add: hasValue_def expectedRow_def rewriteJsonType_def)
  with flatten_build_flatten [OF good] good show ?thesis by simp
qed

text \<open>
  Claim C3 as stated fails. The leaf at \<open>a\<close> carries the variable id V1, and the rows of
  the second flattening carry none; the leaf at \<open>b\<close> has the value \<^verbatim>\<open>null\<close> in its
  only language, and its row does not come back at all.
\<close>

theorem variable_id_and_null_row_lost:
  "result_rows (flattenJsons
      (JObj [(''a'', figmaLeaf ''X'' ''V1''), (''b'', JObj [(''$value'', JNull)])]) JNull JNull) =
     [\<lparr> key_path = ''a'', az_value = JStr ''X'', en_value = JNull, ru_value = JNull,
         token_type = JNull, figma_variable_id = JStr ''V1'' \<rparr>,
      \<lparr> key_path = ''b'', az_value = JNull, en_value = JNull, ru_value = JNull,
         token_type = JNull, figma_variable_id = JNull \<rparr>] \<and>
   roundTrip (JObj [(''a'', figmaLeaf ''X'' ''V1''), (''b'', JObj [(''$value'', JNull)])]) JNull JNull =
     Inr \<lparr> result_rows =
            [\<lparr> key_path = ''a'', az_value = JStr ''X'', en_value = JNull, ru_value = JNull,
                token_type = JNull, figma_variable_id = JNull \<rparr>],
           result_groupExtensions = [] \<rparr>"
proof -
  let ?az = "JObj [(''a'', figmaLeaf ''X'' ''V1''), (''b'', JObj [(''$value'', JNull)])]"
  have rows: "result_rows (flattenJsons ?az JNull JNull) =
     [\<lparr> key_path = ''a'', az_value = JStr ''X'', en_value = JNull, ru_value = JNull,
         token_type = JNull, figma_variable_id = JStr ''V1'' \<rparr>,
      \<lparr> key_path = ''b'', az_value = JNull, en_value = JNull, ru_value = JNull,
         token_type = JNull, figma_variable_id = JNull \<rparr>]"
    by (simp add: flatten_eval figmaLeaf_def)
  have tree: "buildDeveloperJsonRows (result_rows (flattenJsons ?az JNull JNull)) =
      Inr (JObj [(''Translations/AZ'', JObj [(''a'', JObj [(''$value'', JStr ''X''), (''$type'', JNull)])]),
                 (''Translations/EN'', JObj []), (''Translations/RU'', JObj [])])"
    unfolding rows by (simp add: roundtrip_eval)
  have "roundTrip ?az JNull JNull =
     Inr \<lparr> result_rows =
            [\<lparr> key_path = ''a'', az_value = JStr ''X'', en_value = JNull, ru_value = JNull,
                token_type = JNull, figma_variable_id = JNull \<rparr>],
           result_groupExtensions = [] \<rparr>"
    unfolding roundTrip_def tree by (simp add: reflatten_def subtreeOf_def flatten_eval)
  with rows show ?thesis by simp
qed

text \<open>
  A value that is not a string goes through the builder as it is; and two rows of which
  one lies under the other, from a property name with a dot, do not both come back.
\<close>

lemma roundTrip_examples:
  "roundTrip (JObj [(''n'', JObj [(''$value'', JNum 5)])]) JNull JNull =
     Inr \<lparr> result_rows =
            [\<lparr> key_path = ''n'', az_value = JNum 5, en_value = JNull, ru_value = JNull,
                token_type = JNull, figma_variable_id = JNull \<rparr>],
           result_groupExtensions = [] \<rparr>"
  "roundTrip (JObj [(''a'', JObj [(''$value'', JStr ''X'')]), (''a.b'', JObj [(''$value'', JStr ''Y'')])])
       JNull JNull =
     Inr \<lparr> result_rows =
            [\<lparr> key_path = ''a'', az_value = JStr ''X'', en_value = JNull, ru_value = JNull,
                token_type = JNull, figma_variable_id = JNull \<rparr>],
           result_groupExtensions = [] \<rparr>"
  by (simp_all add: roundtrip_eval flatten_eval)

end
